theory Spec2Isabelle
  imports Main
begin

section \<open>Data model\<close>

text \<open>
  The JavaScript constants \<^verbatim>\<open>EMPTY = 0\<close>, \<^verbatim>\<open>BLACK = 1\<close>, \<^verbatim>\<open>WHITE = 2\<close> are the only values a
  board cell holds, and a player argument is one of the same constants. A board is an array
  of row arrays; a move is the object \<^verbatim>\<open>{row, col}\<close>, written here as the pair (row, col).
  Coordinates are integers, because the ray scan steps to -1 and to 8 before its
  bounds test stops it.
\<close>

datatype cell = EMPTY | BLACK | WHITE

type_synonym board = "cell list list"

type_synonym move = "int \<times> int"

definition BOARD_SIZE :: int where
  "BOARD_SIZE = 8"

definition DIRECTIONS :: "(int \<times> int) list" where
  "DIRECTIONS = [(-1, -1), (-1, 0), (-1, 1), (0, -1), (0, 1), (1, -1), (1, 0), (1, 1)]"

text \<open>
  \<^verbatim>\<open>targetBoard[r][c]\<close>. Every read of the engine is either guarded by the bounds test of
  the scan or ranges over 0..7, so on a board of 8 rows of 8 cells no read is out of range.
\<close>

definition cellAt :: "board \<Rightarrow> int \<Rightarrow> int \<Rightarrow> cell" where
  "cellAt b r c = b ! nat r ! nat c"

definition inRange :: "int \<Rightarrow> int \<Rightarrow> bool" where
  "inRange r c \<longleftrightarrow> 0 \<le> r \<and> r < BOARD_SIZE \<and> 0 \<le> c \<and> c < BOARD_SIZE"

definition wf_board :: "board \<Rightarrow> bool" where
  "wf_board b \<longleftrightarrow> length b = 8 \<and> list_all (\<lambda>row. length row = 8) b"

section \<open>Rules engine\<close>

text \<open>
  The \<^verbatim>\<open>while\<close> loop of \<^verbatim>\<open>getFlippablePieces\<close> for one direction, started at
  \<^verbatim>\<open>(row + dr, col + dc)\<close> with an empty \<^verbatim>\<open>currentLine\<close>. Its value is what the ray adds
  to \<^verbatim>\<open>piecesToFlip\<close>: the line when the scan stops on a cell of \<^verbatim>\<open>player\<close>, nothing when
  it stops on any other cell or leaves the board. \<^verbatim>\<open>DIRECTIONS\<close> does not hold the zero
  vector, the only direction on which the JavaScript loop would not advance; the last
  conjunct of the test stops the model there.
\<close>

function flipScan :: "board \<Rightarrow> cell \<Rightarrow> cell \<Rightarrow> int \<Rightarrow> int \<Rightarrow> int \<Rightarrow> int \<Rightarrow> move list \<Rightarrow> move list" where
  "flipScan targetBoard player opponent dr dc r c currentLine =
     (if r \<ge> 0 \<and> r < BOARD_SIZE \<and> c \<ge> 0 \<and> c < BOARD_SIZE \<and> (dr \<noteq> 0 \<or> dc \<noteq> 0) then
        (if cellAt targetBoard r c = opponent then
           flipScan targetBoard player opponent dr dc (r + dr) (c + dc) (currentLine @ [(r, c)])
         else if cellAt targetBoard r c = player then currentLine
         else [])
      else [])"
  by pat_completeness auto
termination
  by (relation "measure (\<lambda>(b, p, opp, dr, dc, r, c, l).
        if dr > 0 then nat (BOARD_SIZE - r) else if dr < 0 then nat (r + 1)
        else if dc > 0 then nat (BOARD_SIZE - c) else nat (c + 1))")
     (auto simp: BOARD_SIZE_def)

declare flipScan.simps [simp del]

definition getFlippablePieces :: "board \<Rightarrow> cell \<Rightarrow> int \<Rightarrow> int \<Rightarrow> move list" where
  "getFlippablePieces targetBoard player row col =
     (let opponent = (if player = BLACK then WHITE else BLACK) in
      fold (\<lambda>(dr, dc) piecesToFlip.
              piecesToFlip @ flipScan targetBoard player opponent dr dc (row + dr) (col + dc) [])
           DIRECTIONS [])"

text \<open>The inner and the outer \<^verbatim>\<open>for\<close> loop of \<^verbatim>\<open>getValidMoves\<close>.\<close>

function validMovesCols :: "board \<Rightarrow> cell \<Rightarrow> int \<Rightarrow> int \<Rightarrow> move list \<Rightarrow> move list" where
  "validMovesCols targetBoard player r c validMoves =
     (if c < BOARD_SIZE then
        validMovesCols targetBoard player r (c + 1)
          (if cellAt targetBoard r c = EMPTY then
             (if getFlippablePieces targetBoard player r c \<noteq> [] then validMoves @ [(r, c)]
              else validMoves)
           else validMoves)
      else validMoves)"
  by pat_completeness auto
termination
  by (relation "measure (\<lambda>(b, p, r, c, l). nat (BOARD_SIZE - c))") auto

declare validMovesCols.simps [simp del]

function validMovesRows :: "board \<Rightarrow> cell \<Rightarrow> int \<Rightarrow> move list \<Rightarrow> move list" where
  "validMovesRows targetBoard player r validMoves =
     (if r < BOARD_SIZE then
        validMovesRows targetBoard player (r + 1) (validMovesCols targetBoard player r 0 validMoves)
      else validMoves)"
  by pat_completeness auto
termination
  by (relation "measure (\<lambda>(b, p, r, l). nat (BOARD_SIZE - r))") auto

declare validMovesRows.simps [simp del]

text \<open>
  The player argument of \<^verbatim>\<open>getValidMoves\<close> is the one place where the code tests the
  player for truthiness (\<^verbatim>\<open>if (!player) return validMoves\<close>). \<open>None\<close> stands for
  \<^verbatim>\<open>null\<close> and \<^verbatim>\<open>undefined\<close>; among the cell constants only \<^verbatim>\<open>EMPTY = 0\<close> is falsy.
\<close>

definition getValidMoves :: "board \<Rightarrow> cell option \<Rightarrow> move list" where
  "getValidMoves targetBoard player =
     (case player of
        None \<Rightarrow> []
      | Some p \<Rightarrow> if p = EMPTY then [] else validMovesRows targetBoard p 0 [])"

definition isValidMove :: "board \<Rightarrow> cell option \<Rightarrow> int \<Rightarrow> int \<Rightarrow> bool" where
  "isValidMove targetBoard player row col =
     list_ex (\<lambda>m. fst m = row \<and> snd m = col) (getValidMoves targetBoard player)"

text \<open>
  \<^verbatim>\<open>newBoard[r][c] = v\<close> on the copy; the caller's board is a value and stays as it is.
  The program writes only at cells of the board: the target of a move, which comes from
  \<^verbatim>\<open>getValidMoves\<close> or from a click on a cell, and the captured cells, which the scan
  keeps in range. The statements below about a write say that the cell is in range;
  outside the board JavaScript would throw on a missing row and lengthen a row for a
  column past its end, where the list update here does nothing.
\<close>

definition setCell :: "board \<Rightarrow> int \<Rightarrow> int \<Rightarrow> cell \<Rightarrow> board" where
  "setCell b r c v = b[nat r := (b ! nat r)[nat c := v]]"

text \<open>\<open>None\<close> is the \<^verbatim>\<open>null\<close> that \<^verbatim>\<open>getResultingBoard\<close> returns.\<close>

definition getResultingBoard :: "board \<Rightarrow> cell \<Rightarrow> int \<Rightarrow> int \<Rightarrow> board option" where
  "getResultingBoard originalBoard player row col =
     (let piecesToFlip = getFlippablePieces originalBoard player row col in
      if piecesToFlip = [] \<and> cellAt originalBoard row col = EMPTY then None
      else Some (fold (\<lambda>p newBoard. setCell newBoard (fst p) (snd p) player)
                   piecesToFlip (setCell originalBoard row col player)))"

text \<open>The board that \<^verbatim>\<open>initGame\<close> builds.\<close>

definition initBoard :: board where
  "initBoard =
     (let board = replicate 8 (replicate 8 EMPTY);
          board = setCell board 3 3 WHITE;
          board = setCell board 4 4 WHITE;
          board = setCell board 3 4 BLACK;
          board = setCell board 4 3 BLACK
      in board)"

text \<open>
  The piece counts of \<^verbatim>\<open>updateInfo\<close> and \<^verbatim>\<open>endGame\<close>: one count per colour over all
  cells, and their sum \<^verbatim>\<open>totalPieces\<close>.
\<close>

definition pieceCount :: "board \<Rightarrow> cell \<Rightarrow> nat" where
  "pieceCount b v = sum_list (map (\<lambda>row. length (filter (\<lambda>x. x = v) row)) b)"

definition totalPieces :: "board \<Rightarrow> nat" where
  "totalPieces b = pieceCount b BLACK + pieceCount b WHITE"

section \<open>Evaluation\<close>

text \<open>
  JavaScript numbers with the two infinities the search starts from. Every finite score
  of the program is an integer of small magnitude, which a double holds exactly.
\<close>

datatype xint = NegInf | Fin int | PosInf

instantiation xint :: linorder
begin

fun less_eq_xint :: "xint \<Rightarrow> xint \<Rightarrow> bool" where
  "less_eq_xint NegInf _ = True"
| "less_eq_xint (Fin a) NegInf = False"
| "less_eq_xint (Fin a) (Fin b) = (a \<le> b)"
| "less_eq_xint (Fin a) PosInf = True"
| "less_eq_xint PosInf PosInf = True"
| "less_eq_xint PosInf _ = False"

definition less_xint :: "xint \<Rightarrow> xint \<Rightarrow> bool" where
  "less_xint x y \<longleftrightarrow> x \<le> y \<and> \<not> y \<le> x"

instance
proof
  fix x y z :: xint
  show "(x < y) = (x \<le> y \<and> \<not> y \<le> x)" by (simp add: less_xint_def)
  show "x \<le> x" by (cases x) auto
  show "x \<le> y \<Longrightarrow> y \<le> z \<Longrightarrow> x \<le> z" by (cases x; cases y; cases z) auto
  show "x \<le> y \<Longrightarrow> y \<le> x \<Longrightarrow> x = y" by (cases x; cases y) auto
  show "x \<le> y \<or> y \<le> x" by (cases x; cases y) auto
qed

end

definition boardValueTable :: "int list list" where
  "boardValueTable =
     [[ 30, -12,  0, -1, -1,  0, -12,  30],
      [-12, -15, -3, -3, -3, -3, -15, -12],
      [  0,  -3,  0, -1, -1,  0,  -3,   0],
      [ -1,  -3, -1, -1, -1, -1,  -3,  -1],
      [ -1,  -3, -1, -1, -1, -1,  -3,  -1],
      [  0,  -3,  0, -1, -1,  0,  -3,   0],
      [-12, -15, -3, -3, -3, -3, -15, -12],
      [ 30, -12,  0, -1, -1,  0, -12,  30]]"

text \<open>The two \<^verbatim>\<open>for\<close> loops of \<^verbatim>\<open>evaluateBoard\<close>, threading \<^verbatim>\<open>boardPositionScore\<close>.\<close>

function positionCols :: "board \<Rightarrow> cell \<Rightarrow> cell \<Rightarrow> int \<Rightarrow> int \<Rightarrow> int \<Rightarrow> int" where
  "positionCols targetBoard player opponent r c boardPositionScore =
     (if c < 8 then
        positionCols targetBoard player opponent r (c + 1)
          (if cellAt targetBoard r c = player then
             boardPositionScore + boardValueTable ! nat r ! nat c
           else if cellAt targetBoard r c = opponent then
             boardPositionScore - boardValueTable ! nat r ! nat c
           else boardPositionScore)
      else boardPositionScore)"
  by pat_completeness auto
termination
  by (relation "measure (\<lambda>(b, p, opp, r, c, s). nat (8 - c))") auto

declare positionCols.simps [simp del]

function positionRows :: "board \<Rightarrow> cell \<Rightarrow> cell \<Rightarrow> int \<Rightarrow> int \<Rightarrow> int" where
  "positionRows targetBoard player opponent r boardPositionScore =
     (if r < 8 then
        positionRows targetBoard player opponent (r + 1)
          (positionCols targetBoard player opponent r 0 boardPositionScore)
      else boardPositionScore)"
  by pat_completeness auto
termination
  by (relation "measure (\<lambda>(b, p, opp, r, s). nat (8 - r))") auto

declare positionRows.simps [simp del]

definition evaluateBoard :: "board \<Rightarrow> cell \<Rightarrow> int" where
  "evaluateBoard targetBoard player =
     (let opponent = (if player = BLACK then WHITE else BLACK);
          boardPositionScore = positionRows targetBoard player opponent 0 0;
          playerMoves = int (length (getValidMoves targetBoard (Some player)));
          opponentMoves = int (length (getValidMoves targetBoard (Some opponent)));
          mobilityScore = playerMoves - opponentMoves
      in (boardPositionScore * 1) + (mobilityScore * 5))"

section \<open>Alpha-beta search\<close>

text \<open>
  \<^verbatim>\<open>alphaBetaSearch\<close> hands the board it gets from \<^verbatim>\<open>getResultingBoard\<close> to the
  recursive call unchecked. On \<^verbatim>\<open>null\<close> the first read of the callee,
  \<^verbatim>\<open>targetBoard[r][c]\<close>, throws a TypeError; that is the only exception of the search.
\<close>

datatype error = TypeError

record searchResult =
  score :: xint
  move :: "move option"

text \<open>
  The \<^verbatim>\<open>for (const move of validMoves)\<close> loop of the maximizing branch. \<open>child m a\<close> is
  the loop body's recursive call for move \<open>m\<close> under the current \<^verbatim>\<open>alpha\<close>; the loop
  carries \<^verbatim>\<open>maxEval\<close>, \<^verbatim>\<open>bestMove\<close> and \<^verbatim>\<open>alpha\<close> and leaves at the \<^verbatim>\<open>break\<close>.
\<close>

fun maxLoop :: "(move \<Rightarrow> xint \<Rightarrow> error + searchResult) \<Rightarrow> xint \<Rightarrow> move list
                  \<Rightarrow> xint \<Rightarrow> move \<Rightarrow> xint \<Rightarrow> error + searchResult" where
  "maxLoop child beta [] maxEval bestMove alpha = Inr \<lparr>score = maxEval, move = Some bestMove\<rparr>"
| "maxLoop child beta (m # ms) maxEval bestMove alpha =
     (case child m alpha of
        Inl e \<Rightarrow> Inl e
      | Inr result \<Rightarrow>
          (let maxEval' = (if score result > maxEval then score result else maxEval);
               bestMove' = (if score result > maxEval then m else bestMove);
               alpha' = max alpha (score result)
           in if beta \<le> alpha' then Inr \<lparr>score = maxEval', move = Some bestMove'\<rparr>
              else maxLoop child beta ms maxEval' bestMove' alpha'))"

text \<open>The loop of the minimizing branch, carrying \<^verbatim>\<open>minEval\<close>, \<^verbatim>\<open>bestMove\<close> and \<^verbatim>\<open>beta\<close>.\<close>

fun minLoop :: "(move \<Rightarrow> xint \<Rightarrow> error + searchResult) \<Rightarrow> xint \<Rightarrow> move list
                  \<Rightarrow> xint \<Rightarrow> move \<Rightarrow> xint \<Rightarrow> error + searchResult" where
  "minLoop child alpha [] minEval bestMove beta = Inr \<lparr>score = minEval, move = Some bestMove\<rparr>"
| "minLoop child alpha (m # ms) minEval bestMove beta =
     (case child m beta of
        Inl e \<Rightarrow> Inl e
      | Inr result \<Rightarrow>
          (let minEval' = (if score result < minEval then score result else minEval);
               bestMove' = (if score result < minEval then m else bestMove);
               beta' = min beta (score result)
           in if beta' \<le> alpha then Inr \<lparr>score = minEval', move = Some bestMove'\<rparr>
              else minLoop child alpha ms minEval' bestMove' beta'))"

lemma maxLoop_cong [fundef_cong]:
  "\<lbrakk>ms = ms'; beta = beta'; maxEval = maxEval'; bestMove = bestMove'; alpha = alpha';
    \<And>m a. m \<in> set ms' \<Longrightarrow> child m a = child' m a\<rbrakk>
   \<Longrightarrow> maxLoop child beta ms maxEval bestMove alpha
       = maxLoop child' beta' ms' maxEval' bestMove' alpha'"
  by (induction child' beta' ms' maxEval' bestMove' alpha'
        arbitrary: ms maxEval bestMove alpha rule: maxLoop.induct)
     (auto split: sum.splits simp: Let_def)

lemma minLoop_cong [fundef_cong]:
  "\<lbrakk>ms = ms'; alpha = alpha'; minEval = minEval'; bestMove = bestMove'; beta = beta';
    \<And>m a. m \<in> set ms' \<Longrightarrow> child m a = child' m a\<rbrakk>
   \<Longrightarrow> minLoop child alpha ms minEval bestMove beta
       = minLoop child' alpha' ms' minEval' bestMove' beta'"
  by (induction child' alpha' ms' minEval' bestMove' beta'
        arbitrary: ms minEval bestMove beta rule: minLoop.induct)
     (auto split: sum.splits simp: Let_def)

text \<open>
  A pass keeps the depth. The search still ends: the side that receives the turn after a
  pass has a move, so the next call below it is made one ply deeper.
\<close>

function alphaBetaSearch :: "board \<Rightarrow> cell \<Rightarrow> nat \<Rightarrow> xint \<Rightarrow> xint \<Rightarrow> bool \<Rightarrow> cell
                               \<Rightarrow> error + searchResult" where
  "alphaBetaSearch targetBoard player depth alpha beta isMaximizingPlayer rootPlayer =
     (let opponent = (if player = BLACK then WHITE else BLACK);
          validMoves = getValidMoves targetBoard (Some player)
      in if depth = 0 \<or> (validMoves = [] \<and> getValidMoves targetBoard (Some opponent) = []) then
           Inr \<lparr>score = Fin (evaluateBoard targetBoard rootPlayer), move = None\<rparr>
         else if validMoves = [] then
           alphaBetaSearch targetBoard opponent depth alpha beta (\<not> isMaximizingPlayer) rootPlayer
         else if isMaximizingPlayer then
           maxLoop (\<lambda>m a. case getResultingBoard targetBoard player (fst m) (snd m) of
                             None \<Rightarrow> Inl TypeError
                           | Some newBoard \<Rightarrow>
                               alphaBetaSearch newBoard opponent (depth - 1) a beta False rootPlayer)
                   beta validMoves NegInf (hd validMoves) alpha
         else
           minLoop (\<lambda>m b. case getResultingBoard targetBoard player (fst m) (snd m) of
                             None \<Rightarrow> Inl TypeError
                           | Some newBoard \<Rightarrow>
                               alphaBetaSearch newBoard opponent (depth - 1) alpha b True rootPlayer)
                   alpha validMoves PosInf (hd validMoves) beta)"
  by pat_completeness auto
termination
  by (relation "measures [\<lambda>(b, p, d, al, be, mx, rp). d,
                          \<lambda>(b, p, d, al, be, mx, rp). if getValidMoves b (Some p) = [] then 1 else 0]")
     (auto split: if_splits)

declare alphaBetaSearch.simps [simp del]

text \<open>
  \<^verbatim>\<open>findBestMove\<close> resolves its promise with \<^verbatim>\<open>result.move\<close>, which is \<^verbatim>\<open>undefined\<close>
  (\<open>None\<close>) when the search returned a bare score.
\<close>

definition findBestMove :: "board \<Rightarrow> cell \<Rightarrow> error + move option" where
  "findBestMove board player =
     (let depth = 4 in
      case alphaBetaSearch board player depth NegInf PosInf True player of
        Inl e \<Rightarrow> Inl e
      | Inr result \<Rightarrow> Inr (move result))"

section \<open>Notions used to state the properties\<close>

text \<open>A cell where a move is legal: it is empty and the placement captures something.\<close>

definition legalAt :: "board \<Rightarrow> cell \<Rightarrow> int \<Rightarrow> int \<Rightarrow> bool" where
  "legalAt b p r c \<longleftrightarrow> cellAt b r c = EMPTY \<and> getFlippablePieces b p r c \<noteq> []"

text \<open>Row-major order on cells: top to bottom, and left to right within a row.\<close>

definition rowMajorBefore :: "move \<Rightarrow> move \<Rightarrow> bool" where
  "rowMajorBefore m m' \<longleftrightarrow> fst m < fst m' \<or> (fst m = fst m' \<and> snd m < snd m')"

text \<open>A captured cell tells its direction: the signs of its offset from the target.\<close>

definition offsetSign :: "int \<Rightarrow> int \<Rightarrow> move \<Rightarrow> int \<times> int" where
  "offsetSign row col x = (sgn (fst x - row), sgn (snd x - col))"

text \<open>
  The position after Black's opening move at (2, 3) and White's reply at (2, 2): column 3
  then reads Black, White, Black from row 2 downwards.
\<close>

definition replyBoard :: board where
  "replyBoard =
     [[EMPTY, EMPTY, EMPTY, EMPTY, EMPTY, EMPTY, EMPTY, EMPTY],
      [EMPTY, EMPTY, EMPTY, EMPTY, EMPTY, EMPTY, EMPTY, EMPTY],
      [EMPTY, EMPTY, WHITE, BLACK, EMPTY, EMPTY, EMPTY, EMPTY],
      [EMPTY, EMPTY, EMPTY, WHITE, BLACK, EMPTY, EMPTY, EMPTY],
      [EMPTY, EMPTY, EMPTY, BLACK, WHITE, EMPTY, EMPTY, EMPTY],
      [EMPTY, EMPTY, EMPTY, EMPTY, EMPTY, EMPTY, EMPTY, EMPTY],
      [EMPTY, EMPTY, EMPTY, EMPTY, EMPTY, EMPTY, EMPTY, EMPTY],
      [EMPTY, EMPTY, EMPTY, EMPTY, EMPTY, EMPTY, EMPTY, EMPTY]]"

text \<open>
  A game played from a board: each move must pass \<^verbatim>\<open>isValidMove\<close> for its player, as
  \<^verbatim>\<open>handleCellClick\<close> demands, and is then applied with \<^verbatim>\<open>getResultingBoard\<close>.
\<close>

fun playMoves :: "board \<Rightarrow> (cell \<times> move) list \<Rightarrow> board option" where
  "playMoves b [] = Some b"
| "playMoves b ((p, m) # rest) =
     (if isValidMove b (Some p) (fst m) (snd m) then
        (case getResultingBoard b p (fst m) (snd m) of
           None \<Rightarrow> None
         | Some nb \<Rightarrow> playMoves nb rest)
      else None)"

text \<open>
  A position of a real game, eight moves in, where Black is to move and has no legal
  move while White has two.
\<close>

definition passBoard :: board where
  "passBoard =
     [[BLACK, EMPTY, WHITE, EMPTY, EMPTY, EMPTY, EMPTY, EMPTY],
      [EMPTY, WHITE, EMPTY, EMPTY, EMPTY, EMPTY, EMPTY, EMPTY],
      [WHITE, WHITE, BLACK, BLACK, EMPTY, EMPTY, EMPTY, EMPTY],
      [EMPTY, EMPTY, EMPTY, BLACK, BLACK, EMPTY, EMPTY, EMPTY],
      [EMPTY, EMPTY, EMPTY, BLACK, BLACK, BLACK, EMPTY, EMPTY],
      [EMPTY, EMPTY, EMPTY, EMPTY, EMPTY, EMPTY, EMPTY, EMPTY],
      [EMPTY, EMPTY, EMPTY, EMPTY, EMPTY, EMPTY, EMPTY, EMPTY],
      [EMPTY, EMPTY, EMPTY, EMPTY, EMPTY, EMPTY, EMPTY, EMPTY]]"

text \<open>
  Applying a move the way the specification words it for callers: an illegal move
  leaves the board unchanged.
\<close>

definition applyMove :: "board \<Rightarrow> cell \<Rightarrow> move \<Rightarrow> board" where
  "applyMove b p m = (case getResultingBoard b p (fst m) (snd m) of Some nb \<Rightarrow> nb | None \<Rightarrow> b)"

text \<open>
  Brute-force minimax, written from the specification of the search with the two bounds
  and the pruning left out: the same leaf test, the same pass that keeps the depth, the
  same evaluation for the root player, and the maximum or minimum over all legal moves.
\<close>

function minimax :: "board \<Rightarrow> cell \<Rightarrow> nat \<Rightarrow> bool \<Rightarrow> cell \<Rightarrow> int" where
  "minimax b player depth isMaximizing rootPlayer =
     (let opponent = (if player = BLACK then WHITE else BLACK);
          validMoves = getValidMoves b (Some player)
      in if depth = 0 \<or> (validMoves = [] \<and> getValidMoves b (Some opponent) = []) then
           evaluateBoard b rootPlayer
         else if validMoves = [] then
           minimax b opponent depth (\<not> isMaximizing) rootPlayer
         else if isMaximizing then
           Max (set (map (\<lambda>m. minimax (applyMove b player m) opponent (depth - 1) False rootPlayer)
                         validMoves))
         else
           Min (set (map (\<lambda>m. minimax (applyMove b player m) opponent (depth - 1) True rootPlayer)
                         validMoves)))"
  by pat_completeness auto
termination
  by (relation "measures [\<lambda>(b, p, d, mx, rp). d,
                          \<lambda>(b, p, d, mx, rp). if getValidMoves b (Some p) = [] then 1 else 0]")
     (auto split: if_splits)

declare minimax.simps [simp del]

text \<open>The brute-force score of a root move under a search of depth \<open>d\<close>.\<close>

definition rootMoveScore :: "board \<Rightarrow> cell \<Rightarrow> nat \<Rightarrow> move \<Rightarrow> int" where
  "rootMoveScore b player d m =
     minimax (applyMove b player m) (if player = BLACK then WHITE else BLACK) (d - 1) False player"

text \<open>
  The tie-break of the specification: a later move replaces the best one only with a
  strictly greater score, so the first of the best moves is kept.
\<close>

definition keepBetter :: "(move \<Rightarrow> int) \<Rightarrow> move \<Rightarrow> move \<Rightarrow> move" where
  "keepBetter g m best = (if g m > g best then m else best)"

definition firstBest :: "(move \<Rightarrow> int) \<Rightarrow> move list \<Rightarrow> move" where
  "firstBest g ms = fold (keepBetter g) (tl ms) (hd ms)"

text \<open>
  What a value \<open>v\<close> returned under the window \<open>(alpha, beta)\<close> says about the exact value
  \<open>m\<close>: an upper bound at or below \<open>alpha\<close>, a lower bound at or above \<open>beta\<close>, and the exact
  value in between.
\<close>

definition sound :: "xint \<Rightarrow> xint \<Rightarrow> xint \<Rightarrow> xint \<Rightarrow> bool" where
  "sound v m alpha beta \<longleftrightarrow>
     (v \<le> alpha \<longrightarrow> m \<le> v) \<and> (alpha < v \<and> v < beta \<longrightarrow> v = m) \<and> (beta \<le> v \<longrightarrow> v \<le> m)"

section \<open>Move generation\<close>

text \<open>
  C10. Called with a \<^verbatim>\<open>null\<close> or \<^verbatim>\<open>undefined\<close> player, \<^verbatim>\<open>getValidMoves\<close> returns the
  empty list for every board, whatever the board holds; the falsy constant \<^verbatim>\<open>EMPTY\<close>
  behaves the same way.
\<close>

theorem getValidMoves_no_player:
  "getValidMoves b None = [] \<and> getValidMoves b (Some EMPTY) = []"
  by (simp add: getValidMoves_def)

text \<open>The two loops append, row by row, the legal cells of each row from left to right.\<close>

lemma validMovesCols_filter:
  "validMovesCols b p r c acc
     = acc @ map (Pair r) (filter (legalAt b p r) [c..BOARD_SIZE - 1])"
proof (induction b p r c acc rule: validMovesCols.induct)
  case (1 b p r c acc)
  show ?case
  proof (cases "c < BOARD_SIZE")
    case True
    then have up: "[c..BOARD_SIZE - 1] = c # [c + 1..BOARD_SIZE - 1]"
      by (simp add: upto_rec1)
    show ?thesis
      using True 1 by (subst validMovesCols.simps) (simp add: up legalAt_def[of b p r c])
  next
    case False
    then show ?thesis
      by (subst validMovesCols.simps) simp
  qed
qed

lemma validMovesRows_concat:
  "validMovesRows b p r acc
     = acc @ concat (map (\<lambda>r'. map (Pair r') (filter (legalAt b p r') [0..BOARD_SIZE - 1]))
                         [r..BOARD_SIZE - 1])"
proof (induction b p r acc rule: validMovesRows.induct)
  case (1 b p r acc)
  show ?case
  proof (cases "r < BOARD_SIZE")
    case True
    then have up: "[r..BOARD_SIZE - 1] = r # [r + 1..BOARD_SIZE - 1]"
      by (simp add: upto_rec1)
    show ?thesis
      using True 1 by (subst validMovesRows.simps) (simp add: up validMovesCols_filter)
  next
    case False
    then show ?thesis
      by (subst validMovesRows.simps) simp
  qed
qed

lemma getValidMoves_concat:
  "p \<noteq> EMPTY \<Longrightarrow> getValidMoves b (Some p)
     = concat (map (\<lambda>r. map (Pair r) (filter (legalAt b p r) [0..BOARD_SIZE - 1]))
                   [0..BOARD_SIZE - 1])"
  by (simp add: getValidMoves_def validMovesRows_concat)

lemma sorted_wrt_concat_map:
  "sorted_wrt (<) rs \<Longrightarrow> (\<And>r. r \<in> set rs \<Longrightarrow> sorted_wrt R (f r))
   \<Longrightarrow> (\<And>r r' x y. r < r' \<Longrightarrow> x \<in> set (f r) \<Longrightarrow> y \<in> set (f r') \<Longrightarrow> R x y)
   \<Longrightarrow> sorted_wrt R (concat (map f rs))"
  by (induction rs) (auto simp: sorted_wrt_append)

lemma getValidMoves_mem:
  "p \<noteq> EMPTY \<Longrightarrow> (r, c) \<in> set (getValidMoves b (Some p))
     \<longleftrightarrow> inRange r c \<and> cellAt b r c = EMPTY \<and> getFlippablePieces b p r c \<noteq> []"
  by (force simp: getValidMoves_concat inRange_def legalAt_def BOARD_SIZE_def)

lemma getValidMoves_sorted:
  assumes "p \<noteq> EMPTY"
  shows "sorted_wrt rowMajorBefore (getValidMoves b (Some p))"
  unfolding getValidMoves_concat[OF assms]
proof (rule sorted_wrt_concat_map)
  show "sorted_wrt (<) [0..BOARD_SIZE - 1]" by simp
next
  fix r
  show "sorted_wrt rowMajorBefore (map (Pair r) (filter (legalAt b p r) [0..BOARD_SIZE - 1]))"
    by (simp add: sorted_wrt_map rowMajorBefore_def sorted_wrt_filter)
next
  fix r r' :: int and x y
  assume "r < r'" "x \<in> set (map (Pair r) (filter (legalAt b p r) [0..BOARD_SIZE - 1]))"
    "y \<in> set (map (Pair r') (filter (legalAt b p r') [0..BOARD_SIZE - 1]))"
  then show "rowMajorBefore x y" by (auto simp: rowMajorBefore_def)
qed

lemma sorted_wrt_rowMajor_distinct:
  "sorted_wrt rowMajorBefore ms \<Longrightarrow> distinct ms"
  by (induction ms) (auto simp: rowMajorBefore_def)

text \<open>
  C4. For Black and for White, \<^verbatim>\<open>getValidMoves\<close> lists exactly the cells of the board
  that are empty and capture at least one piece, each of them once, in row-major order.
\<close>

theorem getValidMoves_row_major:
  assumes "player = BLACK \<or> player = WHITE"
  shows "(\<forall>r c. (r, c) \<in> set (getValidMoves b (Some player))
            \<longleftrightarrow> inRange r c \<and> cellAt b r c = EMPTY \<and> getFlippablePieces b player r c \<noteq> [])
       \<and> distinct (getValidMoves b (Some player))
       \<and> sorted_wrt rowMajorBefore (getValidMoves b (Some player))"
proof -
  have ne: "player \<noteq> EMPTY" using assms by auto
  show ?thesis
    using getValidMoves_mem[OF ne] getValidMoves_sorted[OF ne]
      sorted_wrt_rowMajor_distinct[OF getValidMoves_sorted[OF ne]]
    by blast
qed


theorem getValidMoves_row_major_witness:
  "(BLACK = BLACK \<or> BLACK = WHITE)
   \<and> ((2, 3) \<in> set (getValidMoves initBoard (Some BLACK))
        \<longleftrightarrow> inRange 2 3 \<and> cellAt initBoard 2 3 = EMPTY
            \<and> getFlippablePieces initBoard BLACK 2 3 \<noteq> [])
   \<and> distinct (getValidMoves initBoard (Some BLACK))
   \<and> sorted_wrt rowMajorBefore (getValidMoves initBoard (Some BLACK))"
  using getValidMoves_row_major[of BLACK initBoard] by simp

section \<open>Captured pieces\<close>

lemma cellAt_setCell_other:
  assumes "0 \<le> r" "0 \<le> c" "0 \<le> r'" "0 \<le> c'" "r' \<noteq> r \<or> c' \<noteq> c"
  shows "cellAt (setCell b r c v) r' c' = cellAt b r' c'"
proof (cases "nat r' = nat r")
  case False
  then show ?thesis by (simp add: cellAt_def setCell_def)
next
  case True
  with assms have ne: "nat c' \<noteq> nat c" by auto
  show ?thesis
  proof (cases "nat r < length b")
    case True
    with \<open>nat r' = nat r\<close> ne show ?thesis by (simp add: cellAt_def setCell_def)
  next
    case False
    then show ?thesis by (simp add: cellAt_def setCell_def list_update_beyond)
  qed
qed

lemma cellAt_setCell_same:
  assumes "wf_board b" "inRange r c"
  shows "cellAt (setCell b r c v) r c = v"
proof -
  have "nat r < length b" using assms by (auto simp: wf_board_def inRange_def BOARD_SIZE_def)
  moreover from this have "length (b ! nat r) = 8"
    using assms(1) by (simp add: wf_board_def list_all_length)
  ultimately show ?thesis
    using assms(2) by (auto simp: cellAt_def setCell_def inRange_def BOARD_SIZE_def)
qed

lemma wf_board_setCell:
  "wf_board b \<Longrightarrow> wf_board (setCell b r c v)"
  by (cases "nat r < length b")
     (auto simp: wf_board_def setCell_def list_all_length nth_list_update list_update_beyond)

lemma flipScan_ignores_origin:
  assumes "0 \<le> row" "0 \<le> col"
  shows "1 \<le> j \<Longrightarrow> r = row + j * dr \<Longrightarrow> c = col + j * dc
         \<Longrightarrow> flipScan (setCell b row col v) p q dr dc r c line = flipScan b p q dr dc r c line"
proof (induction b p q dr dc r c line arbitrary: j rule: flipScan.induct)
  case (1 b p q dr dc r c line)
  show ?case
  proof (cases "r \<ge> 0 \<and> r < BOARD_SIZE \<and> c \<ge> 0 \<and> c < BOARD_SIZE \<and> (dr \<noteq> 0 \<or> dc \<noteq> 0)")
    case False
    then show ?thesis
      by (subst flipScan.simps, subst (2) flipScan.simps) auto
  next
    case True
    have "r \<noteq> row \<or> c \<noteq> col"
      using True "1.prems" by auto
    with True assms have same: "cellAt (setCell b row col v) r c = cellAt b r c"
      by (intro cellAt_setCell_other) auto
    have step: "r + dr = row + (j + 1) * dr" "c + dc = col + (j + 1) * dc" "1 \<le> j + 1"
      using "1.prems" by (auto simp: algebra_simps)
    show ?thesis
    proof (cases "cellAt b r c = q")
      case False
      with True same show ?thesis
        by (subst flipScan.simps, subst (2) flipScan.simps) simp
    next
      case q: True
      have "flipScan (setCell b row col v) p q dr dc (r + dr) (c + dc) (line @ [(r, c)])
              = flipScan b p q dr dc (r + dr) (c + dc) (line @ [(r, c)])"
        using "1.IH"[OF True q step(3) step(1) step(2)] .
      with True same q show ?thesis
        by (subst flipScan.simps, subst (2) flipScan.simps) simp
    qed
  qed
qed

lemma fold_append_concat:
  "fold (\<lambda>(dr, dc) acc. acc @ f dr dc) ds acc = acc @ concat (map (\<lambda>(dr, dc). f dr dc) ds)"
  by (induction ds arbitrary: acc) auto

lemma getFlippablePieces_concat:
  "getFlippablePieces b p row col
     = concat (map (\<lambda>(dr, dc). flipScan b p (if p = BLACK then WHITE else BLACK) dr dc
                                   (row + dr) (col + dc) [])
                   DIRECTIONS)"
  by (simp add: getFlippablePieces_def Let_def fold_append_concat)

text \<open>
  C6, as the code has it. \<^verbatim>\<open>getFlippablePieces\<close> never reads the target cell: the result
  is the same whatever that cell holds, so for an occupied target it is the list of
  pieces the same scan captures around an empty one, and that list need not be empty.
\<close>

theorem getFlippablePieces_ignores_target:
  assumes "inRange row col"
  shows "getFlippablePieces (setCell b row col v) player row col
           = getFlippablePieces b player row col"
proof -
  have nonneg: "0 \<le> row" "0 \<le> col" using assms by (auto simp: inRange_def)
  have "flipScan (setCell b row col v) player q dr dc (row + dr) (col + dc) []
          = flipScan b player q dr dc (row + dr) (col + dc) []" for q dr dc
    using flipScan_ignores_origin[OF nonneg, of 1 "row + dr" dr "col + dc" dc b v player q "[]"]
    by simp
  then show ?thesis
    by (simp add: getFlippablePieces_concat)
qed


theorem getFlippablePieces_ignores_target_witness:
  "inRange 2 3
   \<and> getFlippablePieces (setCell replyBoard 2 3 EMPTY) BLACK 2 3
       = getFlippablePieces replyBoard BLACK 2 3"
  using getFlippablePieces_ignores_target[of 2 3 replyBoard EMPTY BLACK]
  by (simp add: inRange_def BOARD_SIZE_def)

text \<open>
  On \<open>replyBoard\<close> the cell (2, 3) holds a black piece, and a scan for Black from it
  captures the white piece at (3, 3): an occupied target with a non-empty result.
\<close>

theorem getFlippablePieces_occupied_counterexample:
  "inRange 2 3 \<and> cellAt replyBoard 2 3 = BLACK
   \<and> getFlippablePieces replyBoard BLACK 2 3 = [(3, 3)]"
  by code_simp

section \<open>Applying a move\<close>

text \<open>
  What one ray contributes: a run of in-range opponent cells at the offsets
  \<open>dr, 2 dr, \<dots>\<close> from the target, or nothing.
\<close>

lemma flipScan_shape:
  "\<exists>n. (flipScan b p q dr dc r c line = []
         \<or> flipScan b p q dr dc r c line
             = line @ map (\<lambda>k. (r + int k * dr, c + int k * dc)) [0..<n])
       \<and> (\<forall>k<n. inRange (r + int k * dr) (c + int k * dc)
                 \<and> cellAt b (r + int k * dr) (c + int k * dc) = q)"
proof (induction b p q dr dc r c line rule: flipScan.induct)
  case (1 b p q dr dc r c line)
  let ?guard = "r \<ge> 0 \<and> r < BOARD_SIZE \<and> c \<ge> 0 \<and> c < BOARD_SIZE \<and> (dr \<noteq> 0 \<or> dc \<noteq> 0)"
  show ?case
  proof (cases "?guard \<and> cellAt b r c = q")
    case False
    then have "flipScan b p q dr dc r c line = [] \<or> flipScan b p q dr dc r c line = line"
      by (subst flipScan.simps, subst (2) flipScan.simps) auto
    then show ?thesis by (intro exI[of _ 0]) auto
  next
    case True
    then obtain n where n:
      "flipScan b p q dr dc (r + dr) (c + dc) (line @ [(r, c)]) = []
       \<or> flipScan b p q dr dc (r + dr) (c + dc) (line @ [(r, c)])
           = (line @ [(r, c)]) @ map (\<lambda>k. (r + dr + int k * dr, c + dc + int k * dc)) [0..<n]"
      "\<forall>k<n. inRange (r + dr + int k * dr) (c + dc + int k * dc)
             \<and> cellAt b (r + dr + int k * dr) (c + dc + int k * dc) = q"
      using "1.IH" by blast
    have unfold: "flipScan b p q dr dc r c line
                    = flipScan b p q dr dc (r + dr) (c + dc) (line @ [(r, c)])"
      using True by (subst flipScan.simps) simp
    have shift: "map (\<lambda>k. (r + int k * dr, c + int k * dc)) [0..<Suc n]
                   = (r, c) # map (\<lambda>k. (r + dr + int k * dr, c + dc + int k * dc)) [0..<n]"
      by (simp add: map_upt_Suc algebra_simps del: upt_Suc)
    have cells: "\<forall>k<Suc n. inRange (r + int k * dr) (c + int k * dc)
                   \<and> cellAt b (r + int k * dr) (c + int k * dc) = q"
    proof (intro allI impI)
      fix k assume "k < Suc n"
      show "inRange (r + int k * dr) (c + int k * dc)
              \<and> cellAt b (r + int k * dr) (c + int k * dc) = q"
      proof (cases k)
        case 0
        with True show ?thesis by (simp add: inRange_def)
      next
        case (Suc k')
        with \<open>k < Suc n\<close> n(2) have "inRange (r + dr + int k' * dr) (c + dc + int k' * dc)
             \<and> cellAt b (r + dr + int k' * dr) (c + dc + int k' * dc) = q" by simp
        with Suc show ?thesis by (simp add: algebra_simps)
      qed
    qed
    show ?thesis
      using n(1) cells unfolding unfold shift[symmetric]
      by (intro exI[of _ "Suc n"]) (auto simp: shift simp del: upt_Suc)
  qed
qed

text \<open>The ray of one direction, as \<^verbatim>\<open>getFlippablePieces\<close> starts it.\<close>

lemma ray_shape:
  "\<exists>n. flipScan b p q dr dc (row + dr) (col + dc) []
          = map (\<lambda>k. (row + (int k + 1) * dr, col + (int k + 1) * dc)) [0..<n]
       \<and> (\<forall>k<n. inRange (row + (int k + 1) * dr) (col + (int k + 1) * dc)
                 \<and> cellAt b (row + (int k + 1) * dr) (col + (int k + 1) * dc) = q)"
proof -
  have pt: "row + dr + int k * dr = row + (int k + 1) * dr"
           "col + dc + int k * dc = col + (int k + 1) * dc" for k
    by (simp_all add: algebra_simps)
  obtain n where n:
    "flipScan b p q dr dc (row + dr) (col + dc) [] = []
     \<or> flipScan b p q dr dc (row + dr) (col + dc) []
         = [] @ map (\<lambda>k. (row + (int k + 1) * dr, col + (int k + 1) * dc)) [0..<n]"
    "\<forall>k<n. inRange (row + (int k + 1) * dr) (col + (int k + 1) * dc)
           \<and> cellAt b (row + (int k + 1) * dr) (col + (int k + 1) * dc) = q"
    using flipScan_shape[of b p q dr dc "row + dr" "col + dc" "[]"] unfolding pt by blast
  from n(1) show ?thesis
  proof
    assume "flipScan b p q dr dc (row + dr) (col + dc) [] = []"
    then show ?thesis by (intro exI[of _ 0]) simp
  next
    assume "flipScan b p q dr dc (row + dr) (col + dc) []
              = [] @ map (\<lambda>k. (row + (int k + 1) * dr, col + (int k + 1) * dc)) [0..<n]"
    with n(2) show ?thesis by (intro exI[of _ n]) simp
  qed
qed

lemma ray_cells:
  "x \<in> set (flipScan b p q dr dc (row + dr) (col + dc) [])
   \<Longrightarrow> inRange (fst x) (snd x) \<and> cellAt b (fst x) (snd x) = q
       \<and> (\<exists>k\<ge>1. fst x = row + k * dr \<and> snd x = col + k * dc)"
proof -
  assume x: "x \<in> set (flipScan b p q dr dc (row + dr) (col + dc) [])"
  obtain n where n:
    "flipScan b p q dr dc (row + dr) (col + dc) []
       = map (\<lambda>k. (row + (int k + 1) * dr, col + (int k + 1) * dc)) [0..<n]"
    "\<forall>k<n. inRange (row + (int k + 1) * dr) (col + (int k + 1) * dc)
           \<and> cellAt b (row + (int k + 1) * dr) (col + (int k + 1) * dc) = q"
    using ray_shape[of b p q dr dc row col] by blast
  from x obtain k where k: "k < n" "x = (row + (int k + 1) * dr, col + (int k + 1) * dc)"
    unfolding n(1) by auto
  have "\<exists>j\<ge>1. fst x = row + j * dr \<and> snd x = col + j * dc"
    using k(2) by (intro exI[of _ "int k + 1"]) simp
  with n(2) k show ?thesis by simp
qed

lemma ray_distinct:
  assumes "dr \<noteq> 0 \<or> dc \<noteq> 0"
  shows "distinct (flipScan b p q dr dc (row + dr) (col + dc) [])"
proof -
  obtain n where n:
    "flipScan b p q dr dc (row + dr) (col + dc) []
       = map (\<lambda>k. (row + (int k + 1) * dr, col + (int k + 1) * dc)) [0..<n]"
    using ray_shape[of b p q dr dc row col] by blast
  have "inj_on (\<lambda>k. (row + (int k + 1) * dr, col + (int k + 1) * dc)) (set [0..<n])"
    using assms by (auto simp: inj_on_def)
  then show ?thesis unfolding n by (simp add: distinct_map)
qed

lemma ray_offsetSign:
  assumes "x \<in> set (flipScan b p q dr dc (row + dr) (col + dc) [])" "(dr, dc) \<in> set DIRECTIONS"
  shows "offsetSign row col x = (dr, dc)"
proof -
  obtain k where k: "k \<ge> 1" "fst x = row + k * dr" "snd x = col + k * dc"
    using ray_cells[OF assms(1)] by blast
  have "sgn (k * dr) = dr" "sgn (k * dc) = dc"
    using assms(2) k(1) by (auto simp: DIRECTIONS_def sgn_mult)
  with k show ?thesis by (simp add: offsetSign_def)
qed

lemma distinct_concat_tagged:
  "distinct ds \<Longrightarrow> (\<And>d. d \<in> set ds \<Longrightarrow> distinct (ray d))
   \<Longrightarrow> (\<And>d x. d \<in> set ds \<Longrightarrow> x \<in> set (ray d) \<Longrightarrow> tag x = d)
   \<Longrightarrow> distinct (concat (map ray ds))"
proof (induction ds)
  case Nil
  then show ?case by simp
next
  case (Cons a ds)
  have "set (ray a) \<inter> set (ray d) = {}" if "d \<in> set ds" for d
  proof -
    have "a \<noteq> d" using Cons.prems(1) that by auto
    moreover have "tag x = a" if "x \<in> set (ray a)" for x
      using Cons.prems(3)[of a x] that by simp
    moreover have "tag x = d" if "x \<in> set (ray d)" for x
      using Cons.prems(3)[of d x] that \<open>d \<in> set ds\<close> by simp
    ultimately show ?thesis by fastforce
  qed
  moreover have "distinct (concat (map ray ds))"
    using Cons by simp
  moreover have "distinct (ray a)"
    using Cons.prems(2) by simp
  ultimately show ?case by auto
qed

lemma getFlippablePieces_distinct:
  "distinct (getFlippablePieces b p row col)"
  unfolding getFlippablePieces_concat
proof (rule distinct_concat_tagged[where tag = "offsetSign row col"])
  show "distinct DIRECTIONS" by (simp add: DIRECTIONS_def)
next
  fix d assume "d \<in> set DIRECTIONS"
  then have "fst d \<noteq> 0 \<or> snd d \<noteq> 0" by (auto simp: DIRECTIONS_def)
  then show "distinct (case d of (dr, dc) \<Rightarrow>
      flipScan b p (if p = BLACK then WHITE else BLACK) dr dc (row + dr) (col + dc) [])"
    by (cases d) (simp add: ray_distinct)
next
  fix d x assume "d \<in> set DIRECTIONS"
    "x \<in> set (case d of (dr, dc) \<Rightarrow>
      flipScan b p (if p = BLACK then WHITE else BLACK) dr dc (row + dr) (col + dc) [])"
  then show "offsetSign row col x = d"
    using ray_offsetSign[of x b p _ "fst d" "snd d" row col] by (simp add: case_prod_beta)
qed

lemma getFlippablePieces_cells:
  assumes "x \<in> set (getFlippablePieces b p row col)"
  shows "inRange (fst x) (snd x)
         \<and> cellAt b (fst x) (snd x) = (if p = BLACK then WHITE else BLACK)
         \<and> x \<noteq> (row, col)"
proof -
  from assms obtain dr dc where d: "(dr, dc) \<in> set DIRECTIONS"
    "x \<in> set (flipScan b p (if p = BLACK then WHITE else BLACK) dr dc (row + dr) (col + dc) [])"
    unfolding getFlippablePieces_concat by auto
  from ray_cells[OF d(2)] obtain k where k:
    "inRange (fst x) (snd x)" "cellAt b (fst x) (snd x) = (if p = BLACK then WHITE else BLACK)"
    "k \<ge> 1" "fst x = row + k * dr" "snd x = col + k * dc"
    by blast
  have "k * dr \<noteq> 0 \<or> k * dc \<noteq> 0"
    using d(1) k(3) by (auto simp: DIRECTIONS_def)
  with k have "x \<noteq> (row, col)" by auto
  with k show ?thesis by simp
qed

lemma sum_list_map_update:
  "i < length xs \<Longrightarrow> sum_list (map f (xs[i := y])) + f (xs ! i) = sum_list (map f xs) + (f y :: nat)"
proof (induction xs arbitrary: i)
  case Nil
  then show ?case by simp
next
  case (Cons x xs)
  then show ?case by (cases i) (auto simp: add.assoc add.left_commute)
qed

lemma rowCount_update:
  "j < length row \<Longrightarrow>
     length (filter (\<lambda>x. x = u) (row[j := v])) + (if row ! j = u then 1 else 0)
       = length (filter (\<lambda>x. x = u) row) + (if v = u then 1 else 0)"
proof (induction row arbitrary: j)
  case Nil
  then show ?case by simp
next
  case (Cons x row)
  show ?case
  proof (cases j)
    case 0
    then show ?thesis by auto
  next
    case (Suc j')
    with Cons.prems have "j' < length row" by simp
    from Cons.IH[OF this] Suc show ?thesis by (auto split: if_splits)
  qed
qed

lemma pieceCount_setCell:
  assumes "wf_board b" "inRange r c"
  shows "pieceCount (setCell b r c v) u + (if cellAt b r c = u then 1 else 0)
           = pieceCount b u + (if v = u then 1 else 0)"
proof -
  let ?rc = "\<lambda>row. length (filter (\<lambda>x. x = u) row)"
  have i: "nat r < length b" using assms by (auto simp: wf_board_def inRange_def BOARD_SIZE_def)
  then have "length (b ! nat r) = 8" using assms(1) by (simp add: wf_board_def list_all_length)
  then have j: "nat c < length (b ! nat r)" using assms(2) by (auto simp: inRange_def BOARD_SIZE_def)
  have "pieceCount (setCell b r c v) u + ?rc (b ! nat r)
          = pieceCount b u + ?rc ((b ! nat r)[nat c := v])"
    unfolding pieceCount_def setCell_def by (rule sum_list_map_update[OF i])
  moreover have "?rc ((b ! nat r)[nat c := v]) + (if cellAt b r c = u then 1 else 0)
          = ?rc (b ! nat r) + (if v = u then 1 else 0)"
    unfolding cellAt_def by (rule rowCount_update[OF j])
  ultimately show ?thesis by linarith
qed

lemma cellAt_setCell:
  assumes "wf_board b" "inRange r c" "inRange r' c'"
  shows "cellAt (setCell b r c v) r' c' = (if r' = r \<and> c' = c then v else cellAt b r' c')"
  using assms cellAt_setCell_same[of b r c v] cellAt_setCell_other[of r c r' c' b v]
  by (auto simp: inRange_def)

text \<open>Recolouring a list of distinct opponent cells, one \<^verbatim>\<open>forEach\<close> step at a time.\<close>

lemma flip_all:
  assumes "q \<noteq> p"
  shows "wf_board b0 \<Longrightarrow> distinct ps
    \<Longrightarrow> \<forall>x\<in>set ps. inRange (fst x) (snd x) \<and> cellAt b0 (fst x) (snd x) = q
    \<Longrightarrow> wf_board (fold (\<lambda>x nb. setCell nb (fst x) (snd x) p) ps b0)
      \<and> pieceCount (fold (\<lambda>x nb. setCell nb (fst x) (snd x) p) ps b0) p
          = pieceCount b0 p + length ps
      \<and> pieceCount (fold (\<lambda>x nb. setCell nb (fst x) (snd x) p) ps b0) q + length ps
          = pieceCount b0 q
      \<and> (\<forall>r c. inRange r c \<longrightarrow>
            cellAt (fold (\<lambda>x nb. setCell nb (fst x) (snd x) p) ps b0) r c
              = (if (r, c) \<in> set ps then p else cellAt b0 r c))"
proof (induction ps arbitrary: b0)
  case Nil
  then show ?case by simp
next
  case (Cons x ps)
  let ?b1 = "setCell b0 (fst x) (snd x) p"
  have x: "inRange (fst x) (snd x)" "cellAt b0 (fst x) (snd x) = q"
    using Cons.prems(3) by auto
  have wf1: "wf_board ?b1" using Cons.prems(1) by (rule wf_board_setCell)
  have rest: "\<forall>y\<in>set ps. inRange (fst y) (snd y) \<and> cellAt ?b1 (fst y) (snd y) = q"
  proof
    fix y assume y: "y \<in> set ps"
    then have "y \<noteq> x" using Cons.prems(2) by auto
    then have "\<not> (fst y = fst x \<and> snd y = snd x)" by (auto simp: prod_eq_iff)
    moreover have "inRange (fst y) (snd y)" "cellAt b0 (fst y) (snd y) = q"
      using Cons.prems(3) y by auto
    ultimately show "inRange (fst y) (snd y) \<and> cellAt ?b1 (fst y) (snd y) = q"
      using cellAt_setCell[OF Cons.prems(1) x(1), of "fst y" "snd y" p] by auto
  qed
  have IH: "wf_board (fold (\<lambda>x nb. setCell nb (fst x) (snd x) p) ps ?b1)
      \<and> pieceCount (fold (\<lambda>x nb. setCell nb (fst x) (snd x) p) ps ?b1) p
          = pieceCount ?b1 p + length ps
      \<and> pieceCount (fold (\<lambda>x nb. setCell nb (fst x) (snd x) p) ps ?b1) q + length ps
          = pieceCount ?b1 q
      \<and> (\<forall>r c. inRange r c \<longrightarrow>
            cellAt (fold (\<lambda>x nb. setCell nb (fst x) (snd x) p) ps ?b1) r c
              = (if (r, c) \<in> set ps then p else cellAt ?b1 r c))"
    using Cons.IH[OF wf1 _ rest] Cons.prems(2) by simp
  have cp: "pieceCount ?b1 p = pieceCount b0 p + 1"
    using pieceCount_setCell[OF Cons.prems(1) x(1), of p p] x(2) assms by simp
  have cq: "pieceCount ?b1 q + 1 = pieceCount b0 q"
    using pieceCount_setCell[OF Cons.prems(1) x(1), of p q] x(2) assms by simp
  have cells: "cellAt ?b1 r c = (if (r, c) = x then p else cellAt b0 r c)" if "inRange r c" for r c
    using cellAt_setCell[OF Cons.prems(1) x(1) that, of p] by (auto simp: prod_eq_iff)
  show ?case
    using IH cp cq cells by (auto simp: prod_eq_iff)
qed

text \<open>
  The effect of a legal move, in full: the result is a board again, the target and every
  captured cell hold the mover's colour, every other cell is as before, and the piece
  counts follow.
\<close>

lemma getResultingBoard_legal:
  assumes "wf_board b" "player = BLACK \<or> player = WHITE" "inRange row col"
    "cellAt b row col = EMPTY" "getFlippablePieces b player row col \<noteq> []"
  shows "\<exists>nb. getResultingBoard b player row col = Some nb
      \<and> totalPieces nb = totalPieces b + 1
      \<and> pieceCount nb player
          = pieceCount b player + 1 + length (getFlippablePieces b player row col)
      \<and> (\<forall>r c. inRange r c \<and> (r, c) \<noteq> (row, col)
                \<and> (r, c) \<notin> set (getFlippablePieces b player row col)
            \<longrightarrow> cellAt nb r c = cellAt b r c)
      \<and> wf_board nb \<and> cellAt nb row col = player
      \<and> (\<forall>x\<in>set (getFlippablePieces b player row col). cellAt nb (fst x) (snd x) = player)"
proof -
  define q where "q = (if player = BLACK then WHITE else BLACK)"
  define flips where "flips = getFlippablePieces b player row col"
  define b0 where "b0 = setCell b row col player"
  define nb where "nb = fold (\<lambda>x nb. setCell nb (fst x) (snd x) player) flips b0"
  have qp: "q \<noteq> player" "q \<noteq> EMPTY" "player \<noteq> EMPTY"
    and colours: "{player, q} = {BLACK, WHITE}"
    using assms(2) by (auto simp: q_def)
  have res: "getResultingBoard b player row col = Some nb"
    using assms(5) by (simp add: getResultingBoard_def Let_def nb_def b0_def flips_def)
  have wf0: "wf_board b0" unfolding b0_def using assms(1) by (rule wf_board_setCell)
  have fl: "inRange (fst x) (snd x)" "cellAt b (fst x) (snd x) = q" "x \<noteq> (row, col)"
    if "x \<in> set flips" for x
    using getFlippablePieces_cells[of x b player row col] that
    by (simp_all add: flips_def q_def)
  have fl0: "\<forall>x\<in>set flips. inRange (fst x) (snd x) \<and> cellAt b0 (fst x) (snd x) = q"
  proof
    fix x assume x: "x \<in> set flips"
    have "\<not> (fst x = row \<and> snd x = col)" using fl(3)[OF x] by (auto simp: prod_eq_iff)
    then show "inRange (fst x) (snd x) \<and> cellAt b0 (fst x) (snd x) = q"
      using cellAt_setCell[OF assms(1) assms(3) fl(1)[OF x], of player] fl(1,2)[OF x]
      by (auto simp: b0_def)
  qed
  have dist: "distinct flips" unfolding flips_def by (rule getFlippablePieces_distinct)
  have all: "wf_board nb"
    "pieceCount nb player = pieceCount b0 player + length flips"
    "pieceCount nb q + length flips = pieceCount b0 q"
    "\<forall>r c. inRange r c \<longrightarrow> cellAt nb r c = (if (r, c) \<in> set flips then player else cellAt b0 r c)"
    using flip_all[OF qp(1) wf0 dist fl0] unfolding nb_def by auto
  have c0p: "pieceCount b0 player = pieceCount b player + 1"
    using pieceCount_setCell[OF assms(1) assms(3), of player player] assms(4) qp
    by (simp add: b0_def)
  have c0q: "pieceCount b0 q = pieceCount b q"
    using pieceCount_setCell[OF assms(1) assms(3), of player q] assms(4) qp
    by (simp add: b0_def)
  have tot: "totalPieces x = pieceCount x player + pieceCount x q" for x
    using assms(2) by (auto simp: totalPieces_def q_def)
  have total: "totalPieces nb = totalPieces b + 1"
    unfolding tot using all(2,3) c0p c0q by linarith
  have own: "pieceCount nb player = pieceCount b player + 1 + length flips"
    using all(2) c0p by simp
  have frame: "cellAt nb r c = cellAt b r c"
    if "inRange r c" "(r, c) \<noteq> (row, col)" "(r, c) \<notin> set flips" for r c
  proof -
    have "cellAt nb r c = cellAt b0 r c" using all(4) that by simp
    also have "\<dots> = cellAt b r c"
      using cellAt_setCell[OF assms(1) assms(3) that(1), of player] that(2) by (auto simp: b0_def)
    finally show ?thesis .
  qed
  have target: "cellAt nb row col = player"
  proof -
    have "(row, col) \<notin> set flips" using fl(3) by blast
    then have "cellAt nb row col = cellAt b0 row col" using all(4) assms(3) by simp
    also have "\<dots> = player"
      unfolding b0_def using assms(1,3) by (rule cellAt_setCell_same)
    finally show ?thesis .
  qed
  have flipped: "\<forall>x\<in>set flips. cellAt nb (fst x) (snd x) = player"
    using all(4) fl(1) by simp
  show ?thesis
    using res total own frame all(1) target flipped unfolding flips_def by blast
qed

text \<open>
  C5, as the code has it. A legal move adds one piece to the board: the total number of
  pieces grows by exactly 1, the mover's own count grows by 1 plus the number of flipped
  pieces, and no cell outside the target and the flipped cells changes.
\<close>

theorem getResultingBoard_piece_counts:
  assumes "wf_board b" "player = BLACK \<or> player = WHITE" "inRange row col"
    "cellAt b row col = EMPTY" "getFlippablePieces b player row col \<noteq> []"
  shows "\<exists>nb. getResultingBoard b player row col = Some nb
      \<and> totalPieces nb = totalPieces b + 1
      \<and> pieceCount nb player
          = pieceCount b player + 1 + length (getFlippablePieces b player row col)
      \<and> (\<forall>r c. inRange r c \<and> (r, c) \<noteq> (row, col)
                \<and> (r, c) \<notin> set (getFlippablePieces b player row col)
            \<longrightarrow> cellAt nb r c = cellAt b r c)"
  using getResultingBoard_legal[OF assms] by blast

theorem getResultingBoard_piece_counts_witness:
  "wf_board initBoard \<and> (BLACK = BLACK \<or> BLACK = WHITE) \<and> inRange 2 3
   \<and> cellAt initBoard 2 3 = EMPTY \<and> getFlippablePieces initBoard BLACK 2 3 \<noteq> []
   \<and> (\<exists>nb. getResultingBoard initBoard BLACK 2 3 = Some nb
      \<and> totalPieces nb = totalPieces initBoard + 1
      \<and> pieceCount nb BLACK
          = pieceCount initBoard BLACK + 1 + length (getFlippablePieces initBoard BLACK 2 3)
      \<and> (\<forall>r c. inRange r c \<and> (r, c) \<noteq> (2, 3)
                \<and> (r, c) \<notin> set (getFlippablePieces initBoard BLACK 2 3)
            \<longrightarrow> cellAt nb r c = cellAt initBoard r c))"
proof -
  have h: "wf_board initBoard" "inRange 2 3" "cellAt initBoard 2 3 = EMPTY"
    "getFlippablePieces initBoard BLACK 2 3 \<noteq> []"
    by code_simp+
  have p: "BLACK = BLACK \<or> BLACK = WHITE" by simp
  show ?thesis
    using h p getResultingBoard_piece_counts[OF h(1) p h(2) h(3) h(4)] by blast
qed

text \<open>
  The count of C5 as it is written fails on the opening move: Black at (2, 3) flips one
  piece and the board goes from 4 pieces to 5, not to 4 + 1 + 1.
\<close>

theorem getResultingBoard_total_counterexample:
  "wf_board initBoard \<and> inRange 2 3 \<and> cellAt initBoard 2 3 = EMPTY
   \<and> getFlippablePieces initBoard BLACK 2 3 = [(3, 3)]
   \<and> getResultingBoard initBoard BLACK 2 3
       = Some (setCell (setCell initBoard 2 3 BLACK) 3 3 BLACK)
   \<and> totalPieces (setCell (setCell initBoard 2 3 BLACK) 3 3 BLACK) = 5
   \<and> totalPieces initBoard + 1 + length (getFlippablePieces initBoard BLACK 2 3) = 6"
  by code_simp

lemma getResultingBoard_nothing_to_flip:
  "cellAt b row col = EMPTY \<Longrightarrow> getFlippablePieces b player row col = []
   \<Longrightarrow> getResultingBoard b player row col = None"
  by (simp add: getResultingBoard_def)

text \<open>
  C3 at an occupied target: on the starting board the cell (3, 3) holds a white piece and
  nothing is captured from it, yet \<^verbatim>\<open>getResultingBoard\<close> returns a board, with that piece
  overwritten by Black, instead of \<^verbatim>\<open>null\<close>.
\<close>

theorem getResultingBoard_occupied_target:
  "inRange 3 3 \<and> cellAt initBoard 3 3 = WHITE \<and> getFlippablePieces initBoard BLACK 3 3 = []
   \<and> getResultingBoard initBoard BLACK 3 3 = Some (setCell initBoard 3 3 BLACK)"
  by code_simp

text \<open>\<open>replyBoard\<close> and \<open>passBoard\<close> are positions of real games.\<close>

lemma passBoard_reached:
  "playMoves initBoard
     [(BLACK, (2, 3)), (WHITE, (2, 2)), (BLACK, (2, 1)), (WHITE, (1, 1)),
      (BLACK, (4, 5)), (WHITE, (2, 0)), (BLACK, (0, 0)), (WHITE, (0, 2))] = Some passBoard"
  by code_simp

lemma replyBoard_played:
  "playMoves initBoard [(BLACK, (2, 3)), (WHITE, (2, 2))] = Some replyBoard"
  by code_simp

section \<open>Static evaluation\<close>

lemma positionCols_swap:
  "p \<noteq> q \<Longrightarrow> positionCols b p q r c s + positionCols b q p r c s' = s + s'"
proof (induction b p q r c s arbitrary: s' rule: positionCols.induct)
  case (1 b p q r c s)
  show ?case
  proof (cases "c < 8")
    case True
    with 1 show ?thesis
      by (simp add: positionCols.simps[of b p q r c] positionCols.simps[of b q p r c])
  next
    case False
    then show ?thesis
      by (simp add: positionCols.simps[of b p q r c] positionCols.simps[of b q p r c])
  qed
qed

lemma positionRows_swap:
  "p \<noteq> q \<Longrightarrow> positionRows b p q r s + positionRows b q p r s' = s + s'"
proof (induction b p q r s arbitrary: s' rule: positionRows.induct)
  case (1 b p q r s)
  show ?case
  proof (cases "r < 8")
    case True
    with 1 show ?thesis
      by (simp add: positionRows.simps[of b p q r] positionRows.simps[of b q p r] positionCols_swap)
  next
    case False
    then show ?thesis
      by (simp add: positionRows.simps[of b p q r] positionRows.simps[of b q p r])
  qed
qed

text \<open>
  C7. For Black and for White the static evaluation of a board is the negation of the
  opponent's evaluation of the same board.
\<close>

theorem evaluateBoard_antisymmetric:
  assumes "player = BLACK \<or> player = WHITE"
  shows "evaluateBoard b player = - evaluateBoard b (if player = BLACK then WHITE else BLACK)"
proof -
  define opponent where "opponent = (if player = BLACK then WHITE else BLACK)"
  have ne: "player \<noteq> opponent" and opp2: "(if opponent = BLACK then WHITE else BLACK) = player"
    using assms by (auto simp: opponent_def)
  have "positionRows b player opponent 0 0 + positionRows b opponent player 0 0 = 0"
    using positionRows_swap[OF ne, of b 0 0 0] by simp
  then show ?thesis
    unfolding evaluateBoard_def Let_def opponent_def[symmetric] opp2 by simp
qed


theorem evaluateBoard_antisymmetric_witness:
  "(BLACK = BLACK \<or> BLACK = WHITE)
   \<and> evaluateBoard replyBoard BLACK = - evaluateBoard replyBoard WHITE"
  using evaluateBoard_antisymmetric[of BLACK replyBoard] by simp

section \<open>Alpha-beta against brute-force minimax\<close>

lemma fold_max_ge: "(M::xint) \<le> fold max xs M"
proof (induction xs arbitrary: M)
  case Nil
  then show ?case by simp
next
  case (Cons a xs)
  have "M \<le> max a M" by simp
  also have "\<dots> \<le> fold max xs (max a M)" by (rule Cons.IH)
  finally show ?case by simp
qed

lemma maxLoop_sound:
  assumes child: "\<And>m a. m \<in> set ms \<Longrightarrow> a < beta
                    \<Longrightarrow> \<exists>res. child m a = Inr res \<and> sound (score res) (f m) a beta"
  shows "alpha = max alpha0 maxEval \<Longrightarrow> alpha < beta \<Longrightarrow> M0 \<le> maxEval
         \<Longrightarrow> (alpha0 < maxEval \<longrightarrow> maxEval = M0)
         \<Longrightarrow> \<exists>res. maxLoop child beta ms maxEval bm alpha = Inr res
                 \<and> sound (score res) (fold max (map f ms) M0) alpha0 beta"
  using child
proof (induction ms arbitrary: maxEval bm alpha M0)
  case Nil
  then show ?case by (auto simp: sound_def)
next
  case (Cons m ms)
  from Cons.prems(5)[of m alpha] Cons.prems(2)
  obtain res where res: "child m alpha = Inr res" "sound (score res) (f m) alpha beta"
    by auto
  define v where "v = score res"
  define maxEval' where "maxEval' = (if v > maxEval then v else maxEval)"
  define bm' where "bm' = (if v > maxEval then m else bm)"
  define alpha' where "alpha' = max alpha v"
  have step: "maxLoop child beta (m # ms) maxEval bm alpha
      = (if beta \<le> alpha' then Inr \<lparr>score = maxEval', move = Some bm'\<rparr>
         else maxLoop child beta ms maxEval' bm' alpha')"
    by (simp add: res Let_def v_def maxEval'_def bm'_def alpha'_def)
  have snd: "(v \<le> alpha \<longrightarrow> f m \<le> v) \<and> (alpha < v \<and> v < beta \<longrightarrow> v = f m)
             \<and> (beta \<le> v \<longrightarrow> v \<le> f m)"
    using res(2) by (simp add: sound_def v_def)
  show ?case
  proof (cases "beta \<le> alpha'")
    case True
    with Cons.prems(1,2) have vb: "beta \<le> v" "maxEval < v" "alpha0 < v"
      by (auto simp: alpha'_def max_def split: if_splits)
    then have "maxEval' = v" by (simp add: maxEval'_def)
    moreover have "v \<le> fold max (map f ms) (max (f m) M0)"
      using snd vb(1) fold_max_ge[of "max (f m) M0" "map f ms"] by (auto simp: max_def split: if_splits)
    ultimately show ?thesis
      unfolding step using True vb by (auto simp: sound_def)
  next
    case False
    have a': "alpha' = max alpha0 maxEval'"
      using Cons.prems(1) by (auto simp: alpha'_def maxEval'_def max_def)
    have lt: "alpha' < beta" using False by simp
    have vlt: "v < beta" using lt by (auto simp: alpha'_def)
    have fv: "f m \<le> v" using snd vlt by (cases "v \<le> alpha") auto
    have m0: "max (f m) M0 \<le> maxEval'"
      using Cons.prems(3) fv by (auto simp: maxEval'_def)
    have ex: "alpha0 < maxEval' \<longrightarrow> maxEval' = max (f m) M0"
    proof
      assume gt: "alpha0 < maxEval'"
      show "maxEval' = max (f m) M0"
      proof (cases "v > maxEval")
        case True
        then have "maxEval' = v" by (simp add: maxEval'_def)
        with gt True Cons.prems(1) have "alpha < v" by (auto simp: max_def split: if_splits)
        with snd vlt have "v = f m" by simp
        with True Cons.prems(3) \<open>maxEval' = v\<close> show ?thesis by (auto simp: max_def)
      next
        case False
        then have "maxEval' = maxEval" by (simp add: maxEval'_def)
        with gt Cons.prems(4) have "maxEval = M0" by simp
        with False fv \<open>maxEval' = maxEval\<close> show ?thesis by (auto simp: max_def)
      qed
    qed
    have "\<exists>res. maxLoop child beta ms maxEval' bm' alpha' = Inr res
            \<and> sound (score res) (fold max (map f ms) (max (f m) M0)) alpha0 beta"
      using Cons.IH[OF a' lt m0 ex] Cons.prems(5) by simp
    with False show ?thesis unfolding step by simp
  qed
qed

lemma xint_simps [simp]:
  "NegInf \<le> x" "x \<le> PosInf" "\<not> x < NegInf" "\<not> PosInf < x"
  "Fin a < Fin b \<longleftrightarrow> a < b" "NegInf < Fin a" "Fin a < PosInf" "NegInf < PosInf"
  "max NegInf x = x" "max x NegInf = x" "min PosInf x = x" "min x PosInf = x"
  "max (Fin a) (Fin b) = Fin (max a b)" "min (Fin a) (Fin b) = Fin (min a b)"
  by (cases x; auto simp: less_xint_def max_def min_def)+

lemma fold_min_le: "fold min xs M \<le> (M::xint)"
proof (induction xs arbitrary: M)
  case Nil
  then show ?case by simp
next
  case (Cons a xs)
  have "fold min xs (min a M) \<le> min a M" by (rule Cons.IH)
  also have "\<dots> \<le> M" by simp
  finally show ?case by simp
qed

lemma minLoop_sound:
  assumes child: "\<And>m b. m \<in> set ms \<Longrightarrow> alpha < b
                    \<Longrightarrow> \<exists>res. child m b = Inr res \<and> sound (score res) (f m) alpha b"
  shows "beta = min beta0 minEval \<Longrightarrow> alpha < beta \<Longrightarrow> minEval \<le> M0
         \<Longrightarrow> (minEval < beta0 \<longrightarrow> minEval = M0)
         \<Longrightarrow> \<exists>res. minLoop child alpha ms minEval bm beta = Inr res
                 \<and> sound (score res) (fold min (map f ms) M0) alpha beta0"
  using child
proof (induction ms arbitrary: minEval bm beta M0)
  case Nil
  then show ?case by (auto simp: sound_def)
next
  case (Cons m ms)
  from Cons.prems(5)[of m beta] Cons.prems(2)
  obtain res where res: "child m beta = Inr res" "sound (score res) (f m) alpha beta"
    by auto
  define v where "v = score res"
  define minEval' where "minEval' = (if v < minEval then v else minEval)"
  define bm' where "bm' = (if v < minEval then m else bm)"
  define beta' where "beta' = min beta v"
  have step: "minLoop child alpha (m # ms) minEval bm beta
      = (if beta' \<le> alpha then Inr \<lparr>score = minEval', move = Some bm'\<rparr>
         else minLoop child alpha ms minEval' bm' beta')"
    by (simp add: res Let_def v_def minEval'_def bm'_def beta'_def)
  have snd: "(v \<le> alpha \<longrightarrow> f m \<le> v) \<and> (alpha < v \<and> v < beta \<longrightarrow> v = f m)
             \<and> (beta \<le> v \<longrightarrow> v \<le> f m)"
    using res(2) by (simp add: sound_def v_def)
  show ?case
  proof (cases "beta' \<le> alpha")
    case True
    with Cons.prems(1,2) have vb: "v \<le> alpha" "v < minEval" "v < beta0"
      by (auto simp: beta'_def min_def split: if_splits)
    then have "minEval' = v" by (simp add: minEval'_def)
    moreover have "fold min (map f ms) (min (f m) M0) \<le> v"
      using snd vb(1) fold_min_le[of "map f ms" "min (f m) M0"] by (auto simp: min_def split: if_splits)
    ultimately show ?thesis
      unfolding step using True vb by (auto simp: sound_def)
  next
    case False
    have b': "beta' = min beta0 minEval'"
      using Cons.prems(1) by (auto simp: beta'_def minEval'_def min_def)
    have lt: "alpha < beta'" using False by simp
    have vgt: "alpha < v" using lt by (auto simp: beta'_def)
    have fv: "v \<le> f m" using snd vgt by (cases "beta \<le> v") auto
    have m0: "minEval' \<le> min (f m) M0"
      using Cons.prems(3) fv by (auto simp: minEval'_def)
    have ex: "minEval' < beta0 \<longrightarrow> minEval' = min (f m) M0"
    proof
      assume gt: "minEval' < beta0"
      show "minEval' = min (f m) M0"
      proof (cases "v < minEval")
        case True
        then have "minEval' = v" by (simp add: minEval'_def)
        with gt True Cons.prems(1) have "v < beta" by (auto simp: min_def split: if_splits)
        with snd vgt have "v = f m" by simp
        with True Cons.prems(3) \<open>minEval' = v\<close> show ?thesis by (auto simp: min_def)
      next
        case False
        then have "minEval' = minEval" by (simp add: minEval'_def)
        with gt Cons.prems(4) have "minEval = M0" by simp
        with False fv \<open>minEval' = minEval\<close> show ?thesis by (auto simp: min_def)
      qed
    qed
    have "\<exists>res. minLoop child alpha ms minEval' bm' beta' = Inr res
            \<and> sound (score res) (fold min (map f ms) (min (f m) M0)) alpha beta0"
      using Cons.IH[OF b' lt m0 ex] Cons.prems(5) by simp
    with False show ?thesis unfolding step by simp
  qed
qed

lemma fold_max_Fin:
  "fold max (map (\<lambda>m. Fin (g m)) ms) (Fin a) = Fin (fold max (map g ms) a)"
  by (induction ms arbitrary: a) auto

lemma fold_min_Fin:
  "fold min (map (\<lambda>m. Fin (g m)) ms) (Fin a) = Fin (fold min (map g ms) a)"
  by (induction ms arbitrary: a) auto

lemma fold_max_NegInf:
  assumes "ms \<noteq> []"
  shows "fold max (map (\<lambda>m. Fin (g m)) ms) NegInf = Fin (Max (set (map g ms)))"
proof (cases ms)
  case Nil
  with assms show ?thesis by simp
next
  case (Cons a list)
  have "Max (set (map g (a # list))) = fold max (map g list) (g a)"
    using Max.set_eq_fold[of "g a" "map g list"] by simp
  then show ?thesis unfolding Cons by (simp add: fold_max_Fin)
qed

lemma fold_min_PosInf:
  assumes "ms \<noteq> []"
  shows "fold min (map (\<lambda>m. Fin (g m)) ms) PosInf = Fin (Min (set (map g ms)))"
proof (cases ms)
  case Nil
  with assms show ?thesis by simp
next
  case (Cons a list)
  have "Min (set (map g (a # list))) = fold min (map g list) (g a)"
    using Min.set_eq_fold[of "g a" "map g list"] by simp
  then show ?thesis unfolding Cons by (simp add: fold_min_Fin)
qed

lemma valid_move_result:
  assumes "m \<in> set (getValidMoves b (Some p))"
  shows "getResultingBoard b p (fst m) (snd m) = Some (applyMove b p m)"
proof -
  have "p \<noteq> EMPTY" using assms by (auto simp: getValidMoves_def)
  then have "getFlippablePieces b p (fst m) (snd m) \<noteq> []"
    using getValidMoves_mem[of p "fst m" "snd m" b] assms by simp
  then show ?thesis by (simp add: getResultingBoard_def applyMove_def Let_def)
qed

lemma alphaBetaSearch_sound:
  "alpha < beta \<Longrightarrow> \<exists>res. alphaBetaSearch b p d alpha beta mx root = Inr res
        \<and> sound (score res) (Fin (minimax b p d mx root)) alpha beta"
proof (induction b p d alpha beta mx root rule: alphaBetaSearch.induct)
  case (1 b p d alpha beta mx root)
  define q where "q = (if p = BLACK then WHITE else BLACK)"
  define vm where "vm = getValidMoves b (Some p)"
  note ab = alphaBetaSearch.simps[of b p d alpha beta mx root, unfolded Let_def, folded q_def vm_def]
  note mm = minimax.simps[of b p d mx root, unfolded Let_def, folded q_def vm_def]
  show ?case
  proof (cases "d = 0 \<or> (vm = [] \<and> getValidMoves b (Some q) = [])")
    case True
    then have "alphaBetaSearch b p d alpha beta mx root
                 = Inr \<lparr>score = Fin (evaluateBoard b root), move = None\<rparr>"
      and "minimax b p d mx root = evaluateBoard b root"
      using ab mm by auto
    then show ?thesis by (simp add: sound_def)
  next
    case inner: False
    show ?thesis
    proof (cases "vm = []")
      case True
      have "alphaBetaSearch b p d alpha beta mx root
              = alphaBetaSearch b q d alpha beta (\<not> mx) root"
        and "minimax b p d mx root = minimax b q d (\<not> mx) root"
        using ab mm inner True by auto
      then show ?thesis
        using "1.IH"(1)[OF q_def vm_def inner True "1.prems"] by simp
    next
      case moves: False
      show ?thesis
      proof (cases mx)
        case True
        let ?child = "\<lambda>m a. case getResultingBoard b p (fst m) (snd m) of
                         None \<Rightarrow> Inl TypeError
                       | Some newBoard \<Rightarrow> alphaBetaSearch newBoard q (d - 1) a beta False root"
        let ?g = "\<lambda>m. minimax (applyMove b p m) q (d - 1) False root"
        have child: "\<exists>res. ?child m a = Inr res \<and> sound (score res) (Fin (?g m)) a beta"
          if "m \<in> set vm" "a < beta" for m a
          using "1.IH"(2)[OF q_def vm_def inner moves True that(1) _ that(2)]
            valid_move_result[of m b p] that(1)
          by (simp add: vm_def)
        have "\<exists>res. maxLoop ?child beta vm NegInf (hd vm) alpha = Inr res
                \<and> sound (score res) (fold max (map (\<lambda>m. Fin (?g m)) vm) NegInf) alpha beta"
          using child "1.prems" by (intro maxLoop_sound) auto
        moreover have "alphaBetaSearch b p d alpha beta mx root
                         = maxLoop ?child beta vm NegInf (hd vm) alpha"
          using ab inner moves True by auto
        moreover have "minimax b p d mx root = Max (set (map ?g vm))"
          using mm inner moves True by auto
        ultimately show ?thesis
          using moves by (simp add: fold_max_NegInf)
      next
        case False
        let ?child = "\<lambda>m a. case getResultingBoard b p (fst m) (snd m) of
                         None \<Rightarrow> Inl TypeError
                       | Some newBoard \<Rightarrow> alphaBetaSearch newBoard q (d - 1) alpha a True root"
        let ?g = "\<lambda>m. minimax (applyMove b p m) q (d - 1) True root"
        have child: "\<exists>res. ?child m a = Inr res \<and> sound (score res) (Fin (?g m)) alpha a"
          if "m \<in> set vm" "alpha < a" for m a
          using "1.IH"(3)[OF q_def vm_def inner moves False that(1) _ that(2)]
            valid_move_result[of m b p] that(1)
          by (simp add: vm_def)
        have "\<exists>res. minLoop ?child alpha vm PosInf (hd vm) beta = Inr res
                \<and> sound (score res) (fold min (map (\<lambda>m. Fin (?g m)) vm) PosInf) alpha beta"
          using child "1.prems" by (intro minLoop_sound) auto
        moreover have "alphaBetaSearch b p d alpha beta mx root
                         = minLoop ?child alpha vm PosInf (hd vm) beta"
          using ab inner moves False by auto
        moreover have "minimax b p d mx root = Min (set (map ?g vm))"
          using mm inner moves False by auto
        ultimately show ?thesis
          using moves by (simp add: fold_min_PosInf)
      qed
    qed
  qed
qed

lemma fold_keepBetter:
  "fold (keepBetter g) ms bm \<in> insert bm (set ms)
   \<and> g (fold (keepBetter g) ms bm) = fold max (map g ms) (g bm)"
proof (induction ms arbitrary: bm)
  case Nil
  then show ?case by simp
next
  case (Cons m ms)
  have "g (keepBetter g m bm) = max (g m) (g bm)"
    by (auto simp: keepBetter_def max_def)
  moreover have "keepBetter g m bm \<in> {m, bm}"
    by (auto simp: keepBetter_def)
  ultimately show ?case
    using Cons.IH[of "keepBetter g m bm"] by auto
qed

lemma firstBest_max:
  assumes "ms \<noteq> []"
  shows "firstBest g ms \<in> set ms \<and> g (firstBest g ms) = Max (set (map g ms))"
proof -
  obtain m ms' where ms: "ms = m # ms'" using assms by (cases ms) auto
  have "Max (set (map g (m # ms'))) = fold max (map g ms') (g m)"
    using Max.set_eq_fold[of "g m" "map g ms'"] by simp
  then show ?thesis
    using fold_keepBetter[of g ms' m] unfolding ms firstBest_def by auto
qed

lemma maxLoop_first:
  assumes child: "\<And>m a. m \<in> set ms \<Longrightarrow> a < PosInf
                    \<Longrightarrow> \<exists>res. child m a = Inr res \<and> sound (score res) (Fin (g m)) a PosInf"
  shows "maxLoop child PosInf ms (Fin (g bm)) bm (Fin (g bm))
           = Inr \<lparr>score = Fin (g (fold (keepBetter g) ms bm)),
                   move = Some (fold (keepBetter g) ms bm)\<rparr>"
  using child
proof (induction ms arbitrary: bm)
  case Nil
  then show ?case by simp
next
  case (Cons m ms)
  from Cons.prems[of m "Fin (g bm)"]
  obtain res where res: "child m (Fin (g bm)) = Inr res"
    "sound (score res) (Fin (g m)) (Fin (g bm)) PosInf"
    by auto
  define v where "v = score res"
  have snd: "(v \<le> Fin (g bm) \<longrightarrow> Fin (g m) \<le> v)
             \<and> (Fin (g bm) < v \<and> v < PosInf \<longrightarrow> v = Fin (g m))
             \<and> (PosInf \<le> v \<longrightarrow> v \<le> Fin (g m))"
    using res(2) by (simp add: sound_def v_def)
  have vfin: "v < PosInf" using snd by (cases v) auto
  have nobreak: "\<not> PosInf \<le> max (Fin (g bm)) v" using vfin by (auto simp: max_def)
  show ?case
  proof (cases "Fin (g bm) < v")
    case True
    then have veq: "v = Fin (g m)" using snd vfin by simp
    with True have better: "keepBetter g m bm = m" by (simp add: keepBetter_def)
    have mx: "max (Fin (g bm)) v = v" using True by (auto simp: max_def)
    have "maxLoop child PosInf (m # ms) (Fin (g bm)) bm (Fin (g bm))
            = maxLoop child PosInf ms v m v"
      using True nobreak unfolding mx by (simp add: res Let_def v_def[symmetric] mx)
    then show ?thesis
      using Cons.IH[of m] Cons.prems by (simp add: veq better)
  next
    case False
    then have le: "v \<le> Fin (g bm)" by simp
    then have "Fin (g m) \<le> v" using snd by simp
    from this le have "Fin (g m) \<le> Fin (g bm)" by (rule order_trans)
    then have keep: "keepBetter g m bm = bm" by (simp add: keepBetter_def)
    have mx: "max (Fin (g bm)) v = Fin (g bm)" using le by (auto simp: max_def)
    have "maxLoop child PosInf (m # ms) (Fin (g bm)) bm (Fin (g bm))
            = maxLoop child PosInf ms (Fin (g bm)) bm (Fin (g bm))"
      using False nobreak unfolding mx by (simp add: res Let_def v_def[symmetric] mx)
    then show ?thesis
      using Cons.IH[of bm] Cons.prems by (simp add: keep)
  qed
qed

lemma maxLoop_start:
  assumes child: "\<And>m a. m \<in> set ms \<Longrightarrow> a < PosInf
                    \<Longrightarrow> \<exists>res. child m a = Inr res \<and> sound (score res) (Fin (g m)) a PosInf"
    and "ms \<noteq> []"
  shows "maxLoop child PosInf ms NegInf bm NegInf
           = Inr \<lparr>score = Fin (g (firstBest g ms)), move = Some (firstBest g ms)\<rparr>"
proof -
  obtain m ms' where ms: "ms = m # ms'" using assms(2) by (cases ms) auto
  from child[of m NegInf] ms
  obtain res where res: "child m NegInf = Inr res" "sound (score res) (Fin (g m)) NegInf PosInf"
    by auto
  define v where "v = score res"
  have snd: "(v \<le> NegInf \<longrightarrow> Fin (g m) \<le> v) \<and> (NegInf < v \<and> v < PosInf \<longrightarrow> v = Fin (g m))
             \<and> (PosInf \<le> v \<longrightarrow> v \<le> Fin (g m))"
    using res(2) by (simp add: sound_def v_def)
  have veq: "v = Fin (g m)" using snd by (cases v) auto
  have "maxLoop child PosInf (m # ms') NegInf bm NegInf
          = maxLoop child PosInf ms' (Fin (g m)) m (Fin (g m))"
    by (simp add: res Let_def v_def[symmetric] veq)
  also have "\<dots> = Inr \<lparr>score = Fin (g (fold (keepBetter g) ms' m)),
                         move = Some (fold (keepBetter g) ms' m)\<rparr>"
    using child by (intro maxLoop_first) (auto simp: ms)
  finally show ?thesis by (simp add: ms firstBest_def)
qed

text \<open>
  At the root, with the full window, the search returns the first legal move whose
  brute-force minimax score is maximal, together with that score.
\<close>

lemma alphaBetaSearch_root:
  assumes "getValidMoves b (Some player) \<noteq> []" "1 \<le> d"
  shows "alphaBetaSearch b player d NegInf PosInf True player
           = Inr \<lparr>score = Fin (rootMoveScore b player d
                                 (firstBest (rootMoveScore b player d)
                                    (getValidMoves b (Some player)))),
                   move = Some (firstBest (rootMoveScore b player d)
                                  (getValidMoves b (Some player)))\<rparr>"
proof -
  define q where "q = (if player = BLACK then WHITE else BLACK)"
  define vm where "vm = getValidMoves b (Some player)"
  let ?child = "\<lambda>m a. case getResultingBoard b player (fst m) (snd m) of
                   None \<Rightarrow> Inl TypeError
                 | Some newBoard \<Rightarrow> alphaBetaSearch newBoard q (d - 1) a PosInf False player"
  have g: "rootMoveScore b player d = (\<lambda>m. minimax (applyMove b player m) q (d - 1) False player)"
    by (simp add: rootMoveScore_def q_def fun_eq_iff)
  have ab: "alphaBetaSearch b player d NegInf PosInf True player
              = maxLoop ?child PosInf vm NegInf (hd vm) NegInf"
    using assms
    by (subst alphaBetaSearch.simps) (simp add: Let_def q_def[symmetric] vm_def[symmetric])
  have child: "\<exists>res. ?child m a = Inr res \<and> sound (score res) (Fin (rootMoveScore b player d m)) a PosInf"
    if "m \<in> set vm" "a < PosInf" for m a
    using alphaBetaSearch_sound[OF that(2), of "applyMove b player m" q "d - 1" False player]
      valid_move_result[of m b player] that(1)
    by (simp add: vm_def g)
  show ?thesis
    unfolding ab vm_def[symmetric]
    using child assms(1) by (intro maxLoop_start) (auto simp: vm_def)
qed

text \<open>
  C2. For every board and player with a legal move and every depth \<open>d \<ge> 1\<close> (so in
  particular for \<open>1 \<le> d \<le> 3\<close>), the search started with the full window returns a legal
  move whose brute-force minimax score of the same depth is the maximum over all legal
  root moves.
\<close>

theorem alphaBetaSearch_selects_minimax_best:
  assumes "getValidMoves b (Some player) \<noteq> []" "1 \<le> d"
  shows "\<exists>m. alphaBetaSearch b player d NegInf PosInf True player
               = Inr \<lparr>score = Fin (rootMoveScore b player d m), move = Some m\<rparr>
           \<and> m \<in> set (getValidMoves b (Some player))
           \<and> rootMoveScore b player d m
               = Max (set (map (rootMoveScore b player d) (getValidMoves b (Some player))))"
  using alphaBetaSearch_root[OF assms]
    firstBest_max[OF assms(1), of "rootMoveScore b player d"]
  by blast


theorem alphaBetaSearch_selects_minimax_best_witness:
  "getValidMoves initBoard (Some BLACK) \<noteq> [] \<and> (1::nat) \<le> 2
   \<and> (\<exists>m. alphaBetaSearch initBoard BLACK 2 NegInf PosInf True BLACK
               = Inr \<lparr>score = Fin (rootMoveScore initBoard BLACK 2 m), move = Some m\<rparr>
           \<and> m \<in> set (getValidMoves initBoard (Some BLACK))
           \<and> rootMoveScore initBoard BLACK 2 m
               = Max (set (map (rootMoveScore initBoard BLACK 2)
                               (getValidMoves initBoard (Some BLACK)))))"
proof -
  have h: "getValidMoves initBoard (Some BLACK) \<noteq> []" by code_simp
  have d: "(1::nat) \<le> 2" by simp
  show ?thesis
    using h d alphaBetaSearch_selects_minimax_best[OF h d] by blast
qed

section \<open>The public search operation\<close>

lemma minLoop_returns_move:
  assumes child: "\<And>m b. m \<in> set ms \<Longrightarrow> alpha < b \<Longrightarrow> \<exists>res. child m b = Inr res"
  shows "alpha < beta \<Longrightarrow> bm \<in> S
         \<Longrightarrow> \<exists>res m'. minLoop child alpha ms minEval bm beta = Inr res
                 \<and> move res = Some m' \<and> m' \<in> S \<union> set ms"
  using child
proof (induction ms arbitrary: minEval bm beta S)
  case Nil
  then show ?case
    by (intro exI[of _ "\<lparr>score = minEval, move = Some bm\<rparr>"] exI[of _ bm]) simp
next
  case (Cons m ms)
  from Cons.prems(3)[of m beta] Cons.prems(1)
  obtain res where res: "child m beta = Inr res" by auto
  define minEval' where "minEval' = (if score res < minEval then score res else minEval)"
  define bm' where "bm' = (if score res < minEval then m else bm)"
  define beta' where "beta' = min beta (score res)"
  have step: "minLoop child alpha (m # ms) minEval bm beta
      = (if beta' \<le> alpha then Inr \<lparr>score = minEval', move = Some bm'\<rparr>
         else minLoop child alpha ms minEval' bm' beta')"
    by (simp add: res Let_def minEval'_def bm'_def beta'_def)
  have bm': "bm' \<in> insert m S" using Cons.prems(2) by (auto simp: bm'_def)
  show ?case
  proof (cases "beta' \<le> alpha")
    case True
    then show ?thesis unfolding step using bm'
      by (intro exI[of _ "\<lparr>score = minEval', move = Some bm'\<rparr>"] exI[of _ bm']) auto
  next
    case False
    then have "alpha < beta'" by simp
    from Cons.IH[OF this bm', of minEval'] Cons.prems(3)
    show ?thesis unfolding step using False by auto
  qed
qed

lemma findBestMove_legal:
  assumes "getValidMoves b (Some player) \<noteq> []"
  shows "\<exists>m\<in>set (getValidMoves b (Some player)). findBestMove b player = Inr (Some m)"
  using alphaBetaSearch_root[OF assms, of 4]
    firstBest_max[OF assms, of "rootMoveScore b player 4"]
  by (auto simp: findBestMove_def)

lemma findBestMove_game_over:
  assumes "getValidMoves b (Some player) = []"
    "getValidMoves b (Some (if player = BLACK then WHITE else BLACK)) = []"
  shows "findBestMove b player = Inr None"
  using assms by (simp add: findBestMove_def alphaBetaSearch.simps[of b player] Let_def)

lemma findBestMove_pass:
  assumes own: "getValidMoves b (Some player) = []"
    and opp: "getValidMoves b (Some (if player = BLACK then WHITE else BLACK)) \<noteq> []"
  shows "\<exists>m\<in>set (getValidMoves b (Some (if player = BLACK then WHITE else BLACK))).
           findBestMove b player = Inr (Some m)"
proof -
  define q where "q = (if player = BLACK then WHITE else BLACK)"
  define vm where "vm = getValidMoves b (Some q)"
  have qne: "q \<noteq> EMPTY" by (simp add: q_def)
  have pq: "(if q = BLACK then WHITE else BLACK) = (if player = EMPTY then WHITE else player)"
    by (cases player) (auto simp: q_def)
  let ?r = "if q = BLACK then WHITE else BLACK"
  let ?child = "\<lambda>m a. case getResultingBoard b q (fst m) (snd m) of
                   None \<Rightarrow> Inl TypeError
                 | Some newBoard \<Rightarrow> alphaBetaSearch newBoard ?r (4 - 1) NegInf a True player"
  have pass: "alphaBetaSearch b player 4 NegInf PosInf True player
                = alphaBetaSearch b q 4 NegInf PosInf False player"
    using own opp by (subst alphaBetaSearch.simps) (simp add: Let_def q_def)
  have node: "alphaBetaSearch b q 4 NegInf PosInf False player
                = minLoop ?child NegInf vm PosInf (hd vm) PosInf"
    using opp by (subst alphaBetaSearch.simps) (simp add: Let_def q_def vm_def)
  have child: "\<exists>res. ?child m a = Inr res" if "m \<in> set vm" "NegInf < a" for m a
    using alphaBetaSearch_sound[OF that(2), of "applyMove b q m" ?r "4 - 1" True player]
      valid_move_result[of m b q] that(1)
    by (auto simp: vm_def)
  have vm: "vm \<noteq> []" using opp by (simp add: vm_def q_def)
  then have "hd vm \<in> set vm" by simp
  from minLoop_returns_move[of vm NegInf ?child PosInf "hd vm" "set vm" PosInf, OF child _ this]
  obtain res m' where "minLoop ?child NegInf vm PosInf (hd vm) PosInf = Inr res"
    "move res = Some m'" "m' \<in> set vm"
    by auto
  then show ?thesis
    unfolding findBestMove_def Let_def pass node q_def[symmetric] vm_def[symmetric] by auto
qed

text \<open>
  C1 at a pass. On \<open>passBoard\<close> Black has no legal move and White has two. The pass branch
  of the search returns the whole result of the opponent's node, so \<^verbatim>\<open>findBestMove\<close> for
  Black answers with one of White's moves instead of no move.
\<close>

theorem findBestMove_pass_returns_move:
  "getValidMoves passBoard (Some BLACK) = []
   \<and> getValidMoves passBoard (Some WHITE) = [(2, 4), (5, 5)]
   \<and> (findBestMove passBoard BLACK = Inr (Some (2, 4))
       \<or> findBestMove passBoard BLACK = Inr (Some (5, 5)))"
proof -
  have own: "getValidMoves passBoard (Some BLACK) = []" by code_simp
  have opp: "getValidMoves passBoard (Some WHITE) = [(2, 4), (5, 5)]" by code_simp
  have "\<exists>m\<in>set (getValidMoves passBoard (Some WHITE)). findBestMove passBoard BLACK = Inr (Some m)"
    using findBestMove_pass[of passBoard BLACK] own opp by simp
  with own opp show ?thesis by auto
qed

section \<open>The opening position\<close>

text \<open>
  The leaf test with the depth looked at first: at depth 0 the result does not depend on
  the list of legal moves.
\<close>

lemma alphaBetaSearch_code [code]:
  "alphaBetaSearch targetBoard player depth alpha beta isMaximizingPlayer rootPlayer =
     (if depth = 0 then
        Inr \<lparr>score = Fin (evaluateBoard targetBoard rootPlayer), move = None\<rparr>
      else
        (let opponent = (if player = BLACK then WHITE else BLACK);
             validMoves = getValidMoves targetBoard (Some player)
         in if validMoves = [] \<and> getValidMoves targetBoard (Some opponent) = [] then
              Inr \<lparr>score = Fin (evaluateBoard targetBoard rootPlayer), move = None\<rparr>
            else if validMoves = [] then
              alphaBetaSearch targetBoard opponent depth alpha beta (\<not> isMaximizingPlayer) rootPlayer
            else if isMaximizingPlayer then
              maxLoop (\<lambda>m a. case getResultingBoard targetBoard player (fst m) (snd m) of
                                None \<Rightarrow> Inl TypeError
                              | Some newBoard \<Rightarrow>
                                  alphaBetaSearch newBoard opponent (depth - 1) a beta False rootPlayer)
                      beta validMoves NegInf (hd validMoves) alpha
            else
              minLoop (\<lambda>m b. case getResultingBoard targetBoard player (fst m) (snd m) of
                                None \<Rightarrow> Inl TypeError
                              | Some newBoard \<Rightarrow>
                                  alphaBetaSearch newBoard opponent (depth - 1) alpha b True rootPlayer)
                      alpha validMoves PosInf (hd validMoves) beta))"
  by (subst alphaBetaSearch.simps) (simp add: Let_def)

lemma minimax_from_window:
  assumes "alphaBetaSearch b p d (Fin lo) (Fin hi) mx root = Inr \<lparr>score = Fin v, move = mv\<rparr>"
    "lo < v" "v < hi"
  shows "minimax b p d mx root = v"
proof -
  have "Fin lo < Fin hi" using assms(2,3) by simp
  from alphaBetaSearch_sound[OF this, of b p d mx root] assms
  show ?thesis by (auto simp: sound_def)
qed

lemma opening_moves:
  "getValidMoves initBoard (Some BLACK) = [(2, 3), (3, 2), (4, 5), (5, 4)]"
  by code_simp

lemma opening_search_2_3:
  "alphaBetaSearch (applyMove initBoard BLACK (2, 3)) WHITE 3 (Fin (- 5)) (Fin (- 3)) False BLACK
     = Inr \<lparr>score = Fin (- 4), move = Some (4, 2)\<rparr>"
  by code_simp

lemma opening_search_3_2:
  "alphaBetaSearch (applyMove initBoard BLACK (3, 2)) WHITE 3 (Fin (- 5)) (Fin (- 3)) False BLACK
     = Inr \<lparr>score = Fin (- 4), move = Some (2, 4)\<rparr>"
  by code_simp

lemma opening_search_4_5:
  "alphaBetaSearch (applyMove initBoard BLACK (4, 5)) WHITE 3 (Fin (- 5)) (Fin (- 3)) False BLACK
     = Inr \<lparr>score = Fin (- 4), move = Some (5, 3)\<rparr>"
  by code_simp

lemma opening_search_5_4:
  "alphaBetaSearch (applyMove initBoard BLACK (5, 4)) WHITE 3 (Fin (- 5)) (Fin (- 3)) False BLACK
     = Inr \<lparr>score = Fin (- 4), move = Some (3, 5)\<rparr>"
  by code_simp

lemma opening_scores:
  "rootMoveScore initBoard BLACK 4 (2, 3) = - 4" "rootMoveScore initBoard BLACK 4 (3, 2) = - 4"
  "rootMoveScore initBoard BLACK 4 (4, 5) = - 4" "rootMoveScore initBoard BLACK 4 (5, 4) = - 4"
  using minimax_from_window[OF opening_search_2_3] minimax_from_window[OF opening_search_3_2]
    minimax_from_window[OF opening_search_4_5] minimax_from_window[OF opening_search_5_4]
  by (simp_all add: rootMoveScore_def)

text \<open>
  C8. On the starting board with Black to move, \<^verbatim>\<open>findBestMove\<close> (depth 4) returns the
  move (2, 3). The legal moves are (2, 3), (3, 2), (4, 5), (5, 4) in this order, and all
  four have the same brute-force minimax score, so the first of them is chosen.
\<close>

theorem findBestMove_opening:
  "findBestMove initBoard BLACK = Inr (Some (2, 3))
   \<and> getValidMoves initBoard (Some BLACK) = [(2, 3), (3, 2), (4, 5), (5, 4)]
   \<and> map (rootMoveScore initBoard BLACK 4) [(2, 3), (3, 2), (4, 5), (5, 4)] = [- 4, - 4, - 4, - 4]"
proof -
  have ne: "getValidMoves initBoard (Some BLACK) \<noteq> []" by (simp add: opening_moves)
  have "firstBest (rootMoveScore initBoard BLACK 4) [(2, 3), (3, 2), (4, 5), (5, 4)] = (2, 3)"
    by (simp add: firstBest_def keepBetter_def opening_scores)
  then have "findBestMove initBoard BLACK = Inr (Some (2, 3))"
    using alphaBetaSearch_root[OF ne, of 4]
    by (simp add: findBestMove_def opening_moves)
  then show ?thesis by (simp add: opening_moves opening_scores)
qed


end
